theory Spec2Isabelle
  imports Main
begin

section \<open>Data model of the day planner\<close>

text \<open>
  A task is the object \<^verbatim>\<open>{ id, text, done }\<close>; the field names carry a prefix because
  \<^verbatim>\<open>id\<close>, \<^verbatim>\<open>text\<close> and \<^verbatim>\<open>done\<close> are taken in Isabelle. A block is the object
  \<^verbatim>\<open>{ start, span, tasks }\<close>; minutes are integers.
\<close>

record task =
  task_id :: string
  task_text :: string
  task_done :: bool

record block =
  start :: int
  span :: int
  tasks :: "task list"

text \<open>A thrown \<^verbatim>\<open>TypeError\<close> (property read on \<^verbatim>\<open>undefined\<close>) and the
  \<^verbatim>\<open>SyntaxError\<close> of \<^verbatim>\<open>JSON.parse\<close> are values.\<close>

datatype error = TypeError | SyntaxError

definition MINS_IN_DAY :: int where
  "MINS_IN_DAY = 1440"

definition DAYS :: "string list" where
  "DAYS = [''Sunday'', ''Monday'', ''Tuesday'', ''Wednesday'', ''Thursday'', ''Friday'', ''Saturday'']"

text \<open>\<^verbatim>\<open>defaultDay\<close>: \<^verbatim>\<open>Array.from({ length: 24 }, (_, h) => ({ start: h * 60, span: 60, tasks: [] }))\<close>.\<close>

definition defaultDay :: "block list" where
  "defaultDay = map (\<lambda>h. \<lparr>start = int h * 60, span = 60, tasks = []\<rparr>) [0..<24]"

text \<open>The copy \<^verbatim>\<open>{ ...s, tasks: [...s.tasks] }\<close> of a block.\<close>

definition copy_block :: "block \<Rightarrow> block" where
  "copy_block s = \<lparr>start = start s, span = span s, tasks = tasks s\<rparr>"

section \<open>The partition invariants\<close>

text \<open>The four invariants of a day, as the specification lists them.\<close>

definition sorted_by_start :: "block list \<Rightarrow> bool" where
  "sorted_by_start bs = sorted (map start bs)"

fun contiguous :: "block list \<Rightarrow> bool" where
  "contiguous (a # b # bs) = (start a + span a = start b \<and> contiguous (b # bs))"
| "contiguous _ = True"

definition covers_day :: "block list \<Rightarrow> bool" where
  "covers_day bs = (bs \<noteq> [] \<and> start (hd bs) = 0 \<and> start (last bs) + span (last bs) = 1440)"

definition spans_positive :: "block list \<Rightarrow> bool" where
  "spans_positive bs = list_all (\<lambda>b. 1 \<le> span b) bs"

definition valid_partition :: "block list \<Rightarrow> bool" where
  "valid_partition bs =
     (sorted_by_start bs \<and> contiguous bs \<and> covers_day bs \<and> spans_positive bs)"

text \<open>An auxiliary, recursive reading of the same invariants: the blocks tile the
  interval from \<open>a\<close> to \<open>z\<close>, each with a positive span.\<close>

fun tiles :: "int \<Rightarrow> block list \<Rightarrow> int \<Rightarrow> bool" where
  "tiles a [] z = (a = z)"
| "tiles a (b # bs) z = (start b = a \<and> 1 \<le> span b \<and> tiles (a + span b) bs z)"

section \<open>The range splice\<close>

text \<open>
  The inner \<^verbatim>\<open>while (j < slots.length)\<close> loop of \<^verbatim>\<open>replaceRangeWithSingleBlock\<close>, run on
  the blocks from index \<open>j\<close> on. It returns \<^verbatim>\<open>rightRemainderSpan\<close>,
  \<^verbatim>\<open>rightRemainderTasks\<close> and the blocks from the final \<open>j\<close> on.
\<close>

fun scan_right :: "block list \<Rightarrow> int \<Rightarrow> int \<times> task list \<times> block list" where
  "scan_right [] end = (0, [], [])"
| "scan_right (cur # rest) end =
     (let curEnd = start cur + span cur in
      if curEnd \<ge> end then
        (let over = curEnd - end in
         if over > 0 then (over, tasks cur, rest) else (0, [], rest))
      else scan_right rest end)"

text \<open>
  The outer \<^verbatim>\<open>while (i < slots.length)\<close> loop. \<open>slots\<close> is the whole array, \<open>todo\<close> the
  blocks from index \<open>i\<close> on and \<open>nxt\<close> the array \<^verbatim>\<open>next\<close> built so far. When no block
  overlaps the range the loop ends and a copy of \<open>slots\<close> is returned.
\<close>

fun splice_loop ::
  "block list \<Rightarrow> block list \<Rightarrow> block list \<Rightarrow> int \<Rightarrow> int \<Rightarrow> task list \<Rightarrow> block list" where
  "splice_loop slots [] nxt st sp tasksForNewBlock = map copy_block slots"
| "splice_loop slots (s # rest) nxt st sp tasksForNewBlock =
     (let end = st + sp; sStart = start s; sEnd = start s + span s in
      if sEnd \<le> st \<or> sStart \<ge> end then
        splice_loop slots rest (nxt @ [copy_block s]) st sp tasksForNewBlock
      else
        (let nxt1 = (if sStart < st
                     then nxt @ [\<lparr>start = sStart, span = st - sStart, tasks = tasks s\<rparr>]
                     else nxt);
             (rightRemainderSpan, rightRemainderTasks, after) = scan_right (s # rest) end;
             nxt2 = nxt1 @ [\<lparr>start = st, span = sp, tasks = tasksForNewBlock\<rparr>];
             nxt3 = (if rightRemainderSpan > 0
                     then nxt2 @ [\<lparr>start = end, span = rightRemainderSpan,
                                   tasks = rightRemainderTasks\<rparr>]
                     else nxt2)
         in nxt3 @ map copy_block after))"

definition replaceRangeWithSingleBlock ::
  "block list \<Rightarrow> int \<Rightarrow> int \<Rightarrow> task list \<Rightarrow> block list" where
  "replaceRangeWithSingleBlock slots st sp tasksForNewBlock =
     splice_loop slots slots [] st sp tasksForNewBlock"

section \<open>Merging and splitting\<close>

text \<open>
  The updater of \<^verbatim>\<open>mergeSlots(i)\<close>. A negative \<open>i\<close> that passes the first test reads
  \<^verbatim>\<open>a.start\<close> on \<^verbatim>\<open>undefined\<close>.
\<close>

definition mergeSlots :: "block list \<Rightarrow> int \<Rightarrow> error + block list" where
  "mergeSlots slots i =
     (if i \<ge> int (length slots) - 1 then Inr slots
      else if i < 0 then Inl TypeError
      else
        (let a = slots ! nat i; b = slots ! (nat i + 1); aEnd = start a + span a in
         if aEnd \<noteq> start b then Inr slots
         else
           (let nxt = slots[nat i := \<lparr>start = start a, span = span a + span b,
                                      tasks = tasks a @ tasks b\<rparr>]
            in Inr (take (nat i + 1) nxt @ drop (nat i + 2) nxt))))"

text \<open>The updater of \<^verbatim>\<open>unmergeSlot(i)\<close>; \<^verbatim>\<open>slots[i]\<close> is \<^verbatim>\<open>undefined\<close> out of range.\<close>

definition unmergeSlot :: "block list \<Rightarrow> int \<Rightarrow> block list" where
  "unmergeSlot slots i =
     (if i < 0 \<or> i \<ge> int (length slots) then slots
      else
        (let s = slots ! nat i in
         if span s \<le> 60 then slots
         else
           (let first = \<lparr>start = start s, span = 60, tasks = tasks s\<rparr>;
                second = \<lparr>start = start s + 60, span = span s - 60, tasks = []\<rparr>;
                nxt = slots[nat i := first]
            in take (nat i + 1) nxt @ [second] @ drop (nat i + 1) nxt)))"

section \<open>Tasks\<close>

text \<open>
  Task ids come from \<^verbatim>\<open>Math.random().toString(36).slice(2, 9)\<close>. The random source is a
  sequence \<open>rnd\<close> of such tokens, and the number of tokens drawn so far is threaded
  through every function that draws one; nothing is assumed about the sequence.
\<close>

type_synonym rnd = "nat \<Rightarrow> string"

text \<open>The \<^verbatim>\<open>patch\<close> object of \<^verbatim>\<open>updateTask\<close>: the fields it holds replace the task's.\<close>

record patch =
  patch_id :: "string option"
  patch_text :: "string option"
  patch_done :: "bool option"

definition apply_patch :: "task \<Rightarrow> patch \<Rightarrow> task" where
  "apply_patch t p =
     \<lparr>task_id = (case patch_id p of None \<Rightarrow> task_id t | Some v \<Rightarrow> v),
      task_text = (case patch_text p of None \<Rightarrow> task_text t | Some v \<Rightarrow> v),
      task_done = (case patch_done p of None \<Rightarrow> task_done t | Some v \<Rightarrow> v)\<rparr>"

text \<open>
  The updaters of \<^verbatim>\<open>addTask\<close>, \<^verbatim>\<open>updateTask\<close> and \<^verbatim>\<open>removeTask\<close>. Out of range
  \<^verbatim>\<open>next[i]\<close> is \<^verbatim>\<open>undefined\<close> and reading \<^verbatim>\<open>next[i].tasks\<close> throws; in \<^verbatim>\<open>addTask\<close> this
  happens before the id is drawn.
\<close>

definition addTask ::
  "rnd \<Rightarrow> nat \<Rightarrow> block list \<Rightarrow> int \<Rightarrow> string \<Rightarrow> error + block list \<times> nat" where
  "addTask rnd n slots i txt =
     (if i < 0 \<or> i \<ge> int (length slots) then Inl TypeError
      else
        Inr (slots[nat i := (slots ! nat i)
               \<lparr>tasks := tasks (slots ! nat i)
                  @ [\<lparr>task_id = rnd n, task_text = txt, task_done = False\<rparr>]\<rparr>],
             Suc n))"

definition updateTask :: "block list \<Rightarrow> int \<Rightarrow> string \<Rightarrow> patch \<Rightarrow> error + block list" where
  "updateTask slots i tid p =
     (if i < 0 \<or> i \<ge> int (length slots) then Inl TypeError
      else
        Inr (slots[nat i := (slots ! nat i)
               \<lparr>tasks := map (\<lambda>t. if task_id t = tid then apply_patch t p else t)
                              (tasks (slots ! nat i))\<rparr>]))"

definition removeTask :: "block list \<Rightarrow> int \<Rightarrow> string \<Rightarrow> error + block list" where
  "removeTask slots i tid =
     (if i < 0 \<or> i \<ge> int (length slots) then Inl TypeError
      else
        Inr (slots[nat i := (slots ! nat i)
               \<lparr>tasks := filter (\<lambda>t. task_id t \<noteq> tid) (tasks (slots ! nat i))\<rparr>]))"

section \<open>The weekly schedule\<close>

text \<open>
  The schedule is the object from day names to arrays of blocks. \<^verbatim>\<open>DAYS[selectedDay]\<close> is
  \<^verbatim>\<open>undefined\<close> out of range, which as a property key is the string \<^verbatim>\<open>undefined\<close>.
\<close>

type_synonym schedule = "string \<Rightarrow> block list option"

definition day_key :: "int \<Rightarrow> string" where
  "day_key d = (if 0 \<le> d \<and> d < int (length DAYS) then DAYS ! nat d else ''undefined'')"

definition defaultSchedule :: schedule where
  "defaultSchedule = fold (\<lambda>d init. init(d \<mapsto> defaultDay)) DAYS Map.empty"

text \<open>
  \<^verbatim>\<open>setDaySlots(updater)\<close> with a function: the updater runs on \<^verbatim>\<open>prev[DAYS[selectedDay]]\<close>.
  Every updater reads a property of its argument first, so a missing day throws.
\<close>

definition setDaySlots ::
  "schedule \<Rightarrow> int \<Rightarrow> (block list \<Rightarrow> error + block list) \<Rightarrow> error + schedule" where
  "setDaySlots prev selectedDay updater =
     (case prev (day_key selectedDay) of
        None \<Rightarrow> Inl TypeError
      | Some slots \<Rightarrow>
          (case updater slots of
             Inl e \<Rightarrow> Inl e
           | Inr slots' \<Rightarrow> Inr (prev(day_key selectedDay \<mapsto> slots'))))"

section \<open>Applying a block to all days\<close>

text \<open>\<^verbatim>\<open>makeCopies\<close>: each task is copied with a newly drawn id.\<close>

fun makeCopies :: "rnd \<Rightarrow> nat \<Rightarrow> task list \<Rightarrow> task list \<times> nat" where
  "makeCopies rnd n [] = ([], n)"
| "makeCopies rnd n (t # ts) =
     (let (cs, n') = makeCopies rnd (Suc n) ts in (t\<lparr>task_id := rnd n\<rparr> # cs, n'))"

text \<open>The \<^verbatim>\<open>reshaped.map\<close> of append mode: every block with exactly the target start and
  span gets copies of the source tasks after its own.\<close>

fun append_copies ::
  "rnd \<Rightarrow> nat \<Rightarrow> block list \<Rightarrow> int \<Rightarrow> int \<Rightarrow> task list \<Rightarrow> block list \<times> nat" where
  "append_copies rnd n [] st sp ts = ([], n)"
| "append_copies rnd n (blk # rest) st sp ts =
     (if start blk = st \<and> span blk = sp then
        (let (cs, n1) = makeCopies rnd n ts;
             (rest', n2) = append_copies rnd n1 rest st sp ts
         in (blk\<lparr>tasks := tasks blk @ cs\<rparr> # rest', n2))
      else
        (let (rest', n2) = append_copies rnd n rest st sp ts in (blk # rest', n2)))"

text \<open>The loop \<^verbatim>\<open>for (let d = 0; d < DAYS.length; d++)\<close> over the remaining day names; every
  day is read from \<open>prev\<close> and written to \<open>nxt\<close>.\<close>

fun apply_days ::
  "rnd \<Rightarrow> string list \<Rightarrow> schedule \<Rightarrow> schedule \<Rightarrow> int \<Rightarrow> int \<Rightarrow> task list \<Rightarrow> string \<Rightarrow> nat
   \<Rightarrow> error + schedule \<times> nat" where
  "apply_days rnd [] prev nxt st sp ts mode n = Inr (nxt, n)"
| "apply_days rnd (dayName # ds) prev nxt st sp ts mode n =
     (case prev dayName of
        None \<Rightarrow> Inl TypeError
      | Some slots \<Rightarrow>
          (let (initialTasks, n1) = (if mode = ''replace'' then makeCopies rnd n ts else ([], n));
               reshaped = replaceRangeWithSingleBlock slots st sp initialTasks;
               (reshaped', n2) = (if mode = ''append''
                                  then append_copies rnd n1 reshaped st sp ts
                                  else (reshaped, n1))
           in apply_days rnd ds prev (nxt(dayName \<mapsto> reshaped')) st sp ts mode n2))"

definition applyBlockToAllDays ::
  "rnd \<Rightarrow> nat \<Rightarrow> schedule \<Rightarrow> int \<Rightarrow> int \<Rightarrow> string \<Rightarrow> error + schedule \<times> nat" where
  "applyBlockToAllDays rnd n prev selectedDay blockIndex mode =
     (case prev (day_key selectedDay) of
        None \<Rightarrow> Inl TypeError
      | Some src \<Rightarrow>
          if blockIndex < 0 \<or> blockIndex \<ge> int (length src) then Inr (prev, n)
          else
            (let srcBlock = src ! nat blockIndex
             in apply_days rnd DAYS prev prev (start srcBlock) (span srcBlock) (tasks srcBlock)
                  mode n))"

section \<open>The custom time range\<close>

text \<open>
  Text is a list of bytes holding UTF-8. The white space that \<^verbatim>\<open>trim\<close> removes is the
  white space and the line terminators of JavaScript, here as their UTF-8 encodings.
\<close>

definition ws_seqs :: "string list" where
  "ws_seqs =
     [[CHR 0x09], [CHR 0x0A], [CHR 0x0B], [CHR 0x0C], [CHR 0x0D], [CHR 0x20],
      [CHR 0xC2, CHR 0xA0], [CHR 0xE1, CHR 0x9A, CHR 0x80],
      [CHR 0xE2, CHR 0x80, CHR 0x80], [CHR 0xE2, CHR 0x80, CHR 0x81],
      [CHR 0xE2, CHR 0x80, CHR 0x82], [CHR 0xE2, CHR 0x80, CHR 0x83],
      [CHR 0xE2, CHR 0x80, CHR 0x84], [CHR 0xE2, CHR 0x80, CHR 0x85],
      [CHR 0xE2, CHR 0x80, CHR 0x86], [CHR 0xE2, CHR 0x80, CHR 0x87],
      [CHR 0xE2, CHR 0x80, CHR 0x88], [CHR 0xE2, CHR 0x80, CHR 0x89],
      [CHR 0xE2, CHR 0x80, CHR 0x8A], [CHR 0xE2, CHR 0x80, CHR 0xA8],
      [CHR 0xE2, CHR 0x80, CHR 0xA9], [CHR 0xE2, CHR 0x80, CHR 0xAF],
      [CHR 0xE2, CHR 0x81, CHR 0x9F], [CHR 0xE3, CHR 0x80, CHR 0x80],
      [CHR 0xEF, CHR 0xBB, CHR 0xBF]]"

definition starts_with :: "string \<Rightarrow> string \<Rightarrow> bool" where
  "starts_with s p = (take (length p) s = p)"

definition endsWith :: "string \<Rightarrow> string \<Rightarrow> bool" where
  "endsWith s p = (length p \<le> length s \<and> drop (length s - length p) s = p)"

text \<open>The length of the white space sequence at the head of a text, 0 when there is none.\<close>

definition ws_head :: "string \<Rightarrow> nat" where
  "ws_head s = (case filter (starts_with s) ws_seqs of [] \<Rightarrow> 0 | p # _ \<Rightarrow> length p)"

function trim_left :: "string \<Rightarrow> string" where
  "trim_left s = (if ws_head s = 0 \<or> s = [] then s else trim_left (drop (ws_head s) s))"
  by pat_completeness auto
termination
  by (relation "measure length") auto

definition ws_last :: "string \<Rightarrow> nat" where
  "ws_last s = (case filter (endsWith s) ws_seqs of [] \<Rightarrow> 0 | p # _ \<Rightarrow> length p)"

function trim_right :: "string \<Rightarrow> string" where
  "trim_right s =
     (if ws_last s = 0 \<or> s = [] then s else trim_right (take (length s - ws_last s) s))"
  by pat_completeness auto
termination
  by (relation "measure length") auto

definition trim :: "string \<Rightarrow> string" where
  "trim s = trim_right (trim_left s)"

definition is_digit :: "char \<Rightarrow> bool" where
  "is_digit c = (c \<in> set ''0123456789'')"

text \<open>\<^verbatim>\<open>toLowerCase\<close> on the ASCII letters; every other character that it changes is replaced
  by a space before the text is read.\<close>

definition toLowerCase :: "string \<Rightarrow> string" where
  "toLowerCase s =
     map (\<lambda>c. if c \<in> set ''ABCDEFGHIJKLMNOPQRSTUVWXYZ''
              then char_of (of_char c + (32::nat)) else c) s"

text \<open>\<^verbatim>\<open>replace(/\s+/g, " ")\<close> on a text whose only white space is the space.\<close>

fun collapse_spaces :: "string \<Rightarrow> string" where
  "collapse_spaces (a # b # s) =
     (if a = CHR '' '' \<and> b = CHR '' '' then collapse_spaces (b # s)
      else a # collapse_spaces (b # s))"
| "collapse_spaces s = s"

text \<open>\<^verbatim>\<open>split\<close> at one character: the pieces between its occurrences.\<close>

fun split_at :: "char \<Rightarrow> string \<Rightarrow> string \<Rightarrow> string list" where
  "split_at sep cur [] = [cur]"
| "split_at sep cur (c # s) =
     (if c = sep then cur # split_at sep [] s else split_at sep (cur @ [c]) s)"

text \<open>\<^verbatim>\<open>parseInt(x, 10)\<close> on a text of digits and colons: the number of the leading digits,
  \<open>None\<close> (\<^verbatim>\<open>NaN\<close>) when there is none.\<close>

definition digits_value :: "string \<Rightarrow> int" where
  "digits_value ds = foldl (\<lambda>v c. 10 * v + (int (of_char c) - 48)) 0 ds"

definition parseInt :: "string \<Rightarrow> int option" where
  "parseInt x =
     (let ds = takeWhile is_digit x in if ds = [] then None else Some (digits_value ds))"

text \<open>The tests \<^verbatim>\<open>/^\d{1,2}:\d{1,2}$/\<close> and \<^verbatim>\<open>/^\d{3,4}$/\<close>.\<close>

definition is_h_colon_m :: "string \<Rightarrow> bool" where
  "is_h_colon_m str =
     (let hh = takeWhile is_digit str; rest = dropWhile is_digit str in
      length hh \<in> {1, 2} \<and>
      (case rest of
         [] \<Rightarrow> False
       | c # mm \<Rightarrow> c = CHR '':'' \<and> length mm \<in> {1, 2} \<and> list_all is_digit mm))"

definition is_3_4_digits :: "string \<Rightarrow> bool" where
  "is_3_4_digits str = (length str \<in> {3, 4} \<and> list_all is_digit str)"

text \<open>\<^verbatim>\<open>parseTimeToMinutes\<close>; \<open>None\<close> is \<^verbatim>\<open>NaN\<close>.\<close>

definition parseTimeToMinutes :: "string \<Rightarrow> int option" where
  "parseTimeToMinutes s =
     (if s = [] then None
      else
        (let str0 = toLowerCase (trim s);
             isAM = endsWith str0 ''am'';
             str1 = (if isAM then trim (take (length str0 - 2) str0) else str0);
             isPM = endsWith str1 ''pm'';
             str2 = (if isPM then trim (take (length str1 - 2) str1) else str1);
             str = trim (collapse_spaces (map (\<lambda>c. if is_digit c \<or> c = CHR '':'' then c else CHR '' '') str2));
             hm =
               (if is_h_colon_m str then
                  (case split_at CHR '':'' [] str of
                     hh # mm # _ \<Rightarrow> (parseInt hh, parseInt mm)
                   | _ \<Rightarrow> (None, None))
                else if is_3_4_digits str then
                  (case parseInt str of
                     None \<Rightarrow> (None, None)
                   | Some n \<Rightarrow> (Some (n div 100), Some (n mod 100)))
                else
                  (case split_at CHR '' '' [] str of
                     [p0, p1] \<Rightarrow> (parseInt p0, parseInt p1)
                   | [p0] \<Rightarrow> (parseInt p0, Some 0)
                   | _ \<Rightarrow> (Some 0, Some 0)))
         in case hm of
              (Some h, Some m) \<Rightarrow>
                (let h1 = (if isPM \<and> h < 12 then h + 12 else h);
                     h2 = (if isAM \<and> h1 = 12 then 0 else h1);
                     h3 = max 0 (min 23 h2);
                     m3 = max 0 (min 59 m)
                 in Some (h3 * 60 + m3))
            | _ \<Rightarrow> None))"

text \<open>\<^verbatim>\<open>raw.split\<close>: the separators are the hyphen, the en dash (three bytes),
  the tilde and the word \<^verbatim>\<open>to\<close> in either case.\<close>

fun split_range :: "string \<Rightarrow> string \<Rightarrow> string list" where
  "split_range cur [] = [cur]"
| "split_range cur (c # s) =
     (if c = CHR ''-'' \<or> c = CHR ''~'' then cur # split_range [] s
      else
        (case s of
           d # s' \<Rightarrow>
             if (c = CHR ''t'' \<or> c = CHR ''T'') \<and> (d = CHR ''o'' \<or> d = CHR ''O'')
             then cur # split_range [] s'
             else
               (case s' of
                  e # s'' \<Rightarrow>
                    if c = CHR 0xE2 \<and> d = CHR 0x80 \<and> e = CHR 0x93
                    then cur # split_range [] s''
                    else split_range (cur @ [c]) s
                | [] \<Rightarrow> split_range (cur @ [c]) s)
         | [] \<Rightarrow> split_range (cur @ [c]) s))"

text \<open>
  \<^verbatim>\<open>addCustomBlock\<close> up to its call of \<^verbatim>\<open>setDaySlots\<close>: the prompt gives \<open>None\<close> when it is
  cancelled. The outcome is a return with no message, an \<^verbatim>\<open>alert\<close>, or the start and the
  span of the range to splice.
\<close>

datatype custom = NoInput | Alert string | Splice int int

definition customRange :: "string option \<Rightarrow> custom" where
  "customRange raw =
     (case raw of
        None \<Rightarrow> NoInput
      | Some r \<Rightarrow>
          if r = [] then NoInput
          else
            (let parts = split_range [] r in
             if length parts < 2
             then Alert ''Please enter a start and end time, like 9:30 - 10:00.''
             else
               (case (parseTimeToMinutes (parts ! 0), parseTimeToMinutes (parts ! 1)) of
                  (Some startMin, Some endMin) \<Rightarrow>
                    if endMin \<le> startMin then Alert ''End time must be after start time.''
                    else
                      (let s = max 0 (min (MINS_IN_DAY - 1) startMin);
                           e = max 1 (min MINS_IN_DAY endMin)
                       in Splice s (e - s))
                | _ \<Rightarrow> Alert ''Could not parse the time. Try formats like 9:30, 10, 1:05pm.'')))"

text \<open>The effect of \<^verbatim>\<open>addCustomBlock\<close> on the selected day's blocks.\<close>

definition addCustomBlock :: "string option \<Rightarrow> block list \<Rightarrow> block list" where
  "addCustomBlock raw slots =
     (case customRange raw of
        Splice s sp \<Rightarrow> replaceRangeWithSingleBlock slots s sp []
      | _ \<Rightarrow> slots)"

section \<open>The planner as a state machine\<close>

text \<open>
  The state of the component: the schedule, the selected day and the number of random
  tokens drawn. An operation is one user action; an operation that throws gives \<open>Inl\<close>.
  \<open>SpliceRange\<close> is \<^verbatim>\<open>replaceRangeWithSingleBlock\<close> on the selected day with any range and
  tasks; \<open>ResetSelectedDay\<close> carries the answer of the confirmation dialog.
\<close>

record engine =
  schedule :: schedule
  selectedDay :: int
  drawn :: nat

datatype op =
    MergeSlots int
  | UnmergeSlot int
  | AddTask int "string option"
  | UpdateTask int string patch
  | RemoveTask int string
  | SpliceRange int int "task list"
  | ApplyBlockToAllDays int string
  | ResetSelectedDay bool
  | AddCustomBlock "string option"
  | SetSelectedDay int

definition with_schedule :: "engine \<Rightarrow> error + schedule \<Rightarrow> error + engine" where
  "with_schedule e r = (case r of Inl er \<Rightarrow> Inl er | Inr s \<Rightarrow> Inr (e\<lparr>schedule := s\<rparr>))"

fun step :: "rnd \<Rightarrow> engine \<Rightarrow> op \<Rightarrow> error + engine" where
  "step rnd e (MergeSlots i) =
     with_schedule e (setDaySlots (schedule e) (selectedDay e) (\<lambda>slots. mergeSlots slots i))"
| "step rnd e (UnmergeSlot i) =
     with_schedule e
       (setDaySlots (schedule e) (selectedDay e) (\<lambda>slots. Inr (unmergeSlot slots i)))"
| "step rnd e (AddTask i text) =
     (case text of
        None \<Rightarrow> Inr e
      | Some txt \<Rightarrow>
          if txt = [] then Inr e
          else
            (case schedule e (day_key (selectedDay e)) of
               None \<Rightarrow> Inl TypeError
             | Some slots \<Rightarrow>
                 (case addTask rnd (drawn e) slots i txt of
                    Inl er \<Rightarrow> Inl er
                  | Inr (slots', n') \<Rightarrow>
                      Inr (e\<lparr>schedule := (schedule e)(day_key (selectedDay e) \<mapsto> slots'),
                             drawn := n'\<rparr>))))"
| "step rnd e (UpdateTask i tid p) =
     with_schedule e
       (setDaySlots (schedule e) (selectedDay e) (\<lambda>slots. updateTask slots i tid p))"
| "step rnd e (RemoveTask i tid) =
     with_schedule e
       (setDaySlots (schedule e) (selectedDay e) (\<lambda>slots. removeTask slots i tid))"
| "step rnd e (SpliceRange st sp ts) =
     with_schedule e
       (setDaySlots (schedule e) (selectedDay e)
          (\<lambda>slots. Inr (replaceRangeWithSingleBlock slots st sp ts)))"
| "step rnd e (ApplyBlockToAllDays blockIndex mode) =
     (case applyBlockToAllDays rnd (drawn e) (schedule e) (selectedDay e) blockIndex mode of
        Inl er \<Rightarrow> Inl er
      | Inr (s, n') \<Rightarrow> Inr (e\<lparr>schedule := s, drawn := n'\<rparr>))"
| "step rnd e (ResetSelectedDay confirmed) =
     (if confirmed
      then Inr (e\<lparr>schedule := (schedule e)(day_key (selectedDay e) \<mapsto> defaultDay)\<rparr>)
      else Inr e)"
| "step rnd e (AddCustomBlock raw) =
     (case customRange raw of
        Splice s sp \<Rightarrow>
          with_schedule e
            (setDaySlots (schedule e) (selectedDay e)
               (\<lambda>slots. Inr (replaceRangeWithSingleBlock slots s sp [])))
      | _ \<Rightarrow> Inr e)"
| "step rnd e (SetSelectedDay d) = Inr (e\<lparr>selectedDay := d\<rparr>)"

fun run_ops :: "rnd \<Rightarrow> engine \<Rightarrow> op list \<Rightarrow> error + engine" where
  "run_ops rnd e [] = Inr e"
| "run_ops rnd e (x # xs) =
     (case step rnd e x of Inl er \<Rightarrow> Inl er | Inr e' \<Rightarrow> run_ops rnd e' xs)"

text \<open>The range condition of the splice, on the operations that carry a range.\<close>

fun op_ok :: "op \<Rightarrow> bool" where
  "op_ok (SpliceRange st sp ts) = (0 \<le> st \<and> 1 \<le> sp \<and> st + sp \<le> 1440)"
| "op_ok _ = True"

text \<open>Every one of the seven days holds a valid partition.\<close>

definition week_valid :: "schedule \<Rightarrow> bool" where
  "week_valid s =
     list_all (\<lambda>d. case s d of None \<Rightarrow> False | Some slots \<Rightarrow> valid_partition slots) DAYS"

section \<open>Loading the schedule\<close>

text \<open>
  \<^verbatim>\<open>JSON.parse\<close> belongs to the platform. What is used of it here: a text whose first
  character after the JSON white space cannot begin a JSON value is a \<^verbatim>\<open>SyntaxError\<close>;
  every other text is left to \<open>decode\<close>, which stands for the rest of \<^verbatim>\<open>JSON.parse\<close>.
\<close>

definition json_rejects :: "string \<Rightarrow> bool" where
  "json_rejects s =
     (case dropWhile (\<lambda>c. c \<in> set [CHR 0x20, CHR 0x09, CHR 0x0A, CHR 0x0D]) s of
        [] \<Rightarrow> True
      | c # _ \<Rightarrow> c \<notin> set ''{[\"-0123456789tfn'')"

definition JSON_parse :: "(string \<Rightarrow> error + schedule) \<Rightarrow> string \<Rightarrow> error + schedule" where
  "JSON_parse decode s = (if json_rejects s then Inl SyntaxError else decode s)"

text \<open>
  The initializer of the \<^verbatim>\<open>schedule\<close> state: \<open>saved\<close> is the value of
  \<^verbatim>\<open>localStorage.getItem\<close>, \<open>None\<close> for \<^verbatim>\<open>null\<close>; the empty text is falsy as well.
\<close>

definition schedule_init :: "(string \<Rightarrow> error + schedule) \<Rightarrow> string option \<Rightarrow> error + schedule" where
  "schedule_init decode saved =
     (case saved of
        None \<Rightarrow> Inr defaultSchedule
      | Some s \<Rightarrow> if s = [] then Inr defaultSchedule else JSON_parse decode s)"

section \<open>Names for the overlapping run\<close>

text \<open>The index of the first block that ends after \<open>st\<close> and of the first block that
  ends at or after \<open>en\<close>: in a partition of the day these are the first and the last
  block overlapping the range from \<open>st\<close> to \<open>en\<close>. The remainders are the blocks the
  splice emits for the cut edges.\<close>

definition first_overlap :: "block list \<Rightarrow> int \<Rightarrow> nat" where
  "first_overlap slots st = length (takeWhile (\<lambda>b. start b + span b \<le> st) slots)"

definition last_overlap :: "block list \<Rightarrow> int \<Rightarrow> nat" where
  "last_overlap slots en = length (takeWhile (\<lambda>b. start b + span b < en) slots)"

definition left_remainder :: "block \<Rightarrow> int \<Rightarrow> block list" where
  "left_remainder b st =
     (if start b < st then [\<lparr>start = start b, span = st - start b, tasks = tasks b\<rparr>] else [])"

definition right_remainder :: "block \<Rightarrow> int \<Rightarrow> block list" where
  "right_remainder b en =
     (if start b + span b > en
      then [\<lparr>start = en, span = start b + span b - en, tasks = tasks b\<rparr>] else [])"

text \<open>The body of the loop over the days in \<^verbatim>\<open>applyBlockToAllDays\<close>, for one day: the
  reshaped blocks and the number of tokens drawn after it.\<close>

definition reshape_day ::
  "rnd \<Rightarrow> nat \<Rightarrow> block list \<Rightarrow> int \<Rightarrow> int \<Rightarrow> task list \<Rightarrow> string \<Rightarrow> block list \<times> nat" where
  "reshape_day rnd n slots st sp ts mode =
     (let (initialTasks, n1) = (if mode = ''replace'' then makeCopies rnd n ts else ([], n));
          reshaped = replaceRangeWithSingleBlock slots st sp initialTasks
      in if mode = ''append'' then append_copies rnd n1 reshaped st sp ts else (reshaped, n1))"

text \<open>The invariant of the state machine: every day of the week is present, and every
  entry of the schedule is a valid partition.\<close>

definition all_valid :: "schedule \<Rightarrow> bool" where
  "all_valid s =
     ((\<forall>d \<in> set DAYS. s d \<noteq> None) \<and> (\<forall>k slots. s k = Some slots \<longrightarrow> valid_partition slots))"

text \<open>The indices an operation carries are indices of blocks of the selected day; a merge
  needs only a non-negative index.\<close>

definition selected_slots :: "engine \<Rightarrow> block list" where
  "selected_slots e = (case schedule e (day_key (selectedDay e)) of None \<Rightarrow> [] | Some slots \<Rightarrow> slots)"

fun op_in_range :: "engine \<Rightarrow> op \<Rightarrow> bool" where
  "op_in_range e (MergeSlots i) = (0 \<le> i)"
| "op_in_range e (AddTask i inp) = (0 \<le> i \<and> i < int (length (selected_slots e)))"
| "op_in_range e (UpdateTask i tid p) = (0 \<le> i \<and> i < int (length (selected_slots e)))"
| "op_in_range e (RemoveTask i tid) = (0 \<le> i \<and> i < int (length (selected_slots e)))"
| "op_in_range e _ = True"

section \<open>The day of the interior-task example\<close>

text \<open>The default day with the task \<^verbatim>\<open>A\<close> in the block from minute 60 to minute 120, and the
  task \<^verbatim>\<open>X\<close> of the new block.\<close>

definition task_A :: task where
  "task_A = \<lparr>task_id = ''a1'', task_text = ''A'', task_done = False\<rparr>"

definition task_X :: task where
  "task_X = \<lparr>task_id = ''x1'', task_text = ''X'', task_done = False\<rparr>"

definition day_with_A :: "block list" where
  "day_with_A = defaultDay[1 := \<lparr>start = 60, span = 60, tasks = [task_A]\<rparr>]"

text \<open>The default day with the task \<^verbatim>\<open>A\<close> in its first block, after the splice of the range
  from minute 20 to minute 30 with no tasks.\<close>

definition day_A_split :: "block list" where
  "day_A_split =
     replaceRangeWithSingleBlock
       (defaultDay[0 := \<lparr>start = 0, span = 60, tasks = [task_A]\<rparr>]) 20 10 []"

text \<open>Two blocks with a gap between them: not a partition, used for the merge of a
  non-adjacent pair.\<close>

definition gap_day :: "block list" where
  "gap_day = [\<lparr>start = 0, span = 60, tasks = []\<rparr>, \<lparr>start = 90, span = 30, tasks = []\<rparr>]"

text \<open>
  The week of the propagation examples: Monday and Tuesday hold a block from minute 90 to
  minute 150, Monday's with the task \<^verbatim>\<open>gym\<close> and Tuesday's with the task \<^verbatim>\<open>call mom\<close>; the
  other days are default days. \<open>same_token\<close> is a random source that gives one token
  again and again.
\<close>

definition task_gym :: task where
  "task_gym = \<lparr>task_id = ''g1'', task_text = ''gym'', task_done = False\<rparr>"

definition task_call_mom :: task where
  "task_call_mom = \<lparr>task_id = ''c1'', task_text = ''call mom'', task_done = False\<rparr>"

definition planned_day :: "task list \<Rightarrow> block list" where
  "planned_day ts =
     [\<lparr>start = 0, span = 60, tasks = []\<rparr>, \<lparr>start = 60, span = 30, tasks = []\<rparr>,
      \<lparr>start = 90, span = 60, tasks = ts\<rparr>, \<lparr>start = 150, span = 30, tasks = []\<rparr>]
     @ drop 3 defaultDay"

definition week_example :: schedule where
  "week_example =
     defaultSchedule(''Monday'' \<mapsto> planned_day [task_gym],
                     ''Tuesday'' \<mapsto> planned_day [task_call_mom])"

definition same_token :: rnd where
  "same_token n = ''i''"

text \<open>The schedule of a result, \<open>None\<close> when the operation threw, and the day of a schedule.\<close>

definition result_day :: "error + schedule \<times> nat \<Rightarrow> string \<Rightarrow> block list option" where
  "result_day r d = (case r of Inl e \<Rightarrow> None | Inr (s, n) \<Rightarrow> s d)"

text \<open>A run of the planner from the default schedule with Monday selected.\<close>

definition example_ops :: "op list" where
  "example_ops =
     [SetSelectedDay 1, MergeSlots 0, UnmergeSlot 0, SpliceRange 90 60 [],
      AddTask 2 (Some ''gym''),
      UpdateTask 2 ''i'' \<lparr>patch_id = None, patch_text = None, patch_done = Some True\<rparr>,
      ApplyBlockToAllDays 2 ''replace'', RemoveTask 2 ''i'',
      AddCustomBlock (Some ''9:30 - 10''), SetSelectedDay 3, ResetSelectedDay True]"

definition example_start :: engine where
  "example_start = \<lparr>schedule = defaultSchedule, selectedDay = 0, drawn = 0\<rparr>"

section \<open>Facts about the invariants\<close>

lemma copy_block_id [simp]: "copy_block s = s"
  by (simp add: copy_block_def)

lemma map_copy_block [simp]: "map copy_block bs = bs"
  by (induction bs) simp_all

lemma tiles_append:
  "tiles a (xs @ ys) z \<longleftrightarrow> (\<exists>m. tiles a xs m \<and> tiles m ys z)"
  by (induction xs arbitrary: a) auto

lemma tiles_le: "tiles a bs z \<Longrightarrow> a \<le> z"
  by (induction bs arbitrary: a) fastforce+

lemma tiles_bounds: "tiles a bs z \<Longrightarrow> b \<in> set bs \<Longrightarrow> a \<le> start b \<and> start b + span b \<le> z"
proof (induction bs arbitrary: a)
  case Nil then show ?case by simp
next
  case (Cons x xs)
  show ?case
  proof (cases "b = x")
    case True
    with Cons.prems tiles_le[of "a + span x" xs z] show ?thesis by simp
  next
    case False
    with Cons.prems have "b \<in> set xs" "tiles (a + span x) xs z" "1 \<le> span x" by simp_all
    with Cons.IH[of "a + span x"] show ?thesis by simp
  qed
qed

lemma tiles_sorted: "tiles a bs z \<Longrightarrow> sorted (map start bs)"
proof (induction bs arbitrary: a)
  case Nil then show ?case by simp
next
  case (Cons x xs)
  then have t: "tiles (a + span x) xs z" and p: "1 \<le> span x" and s: "start x = a" by simp_all
  have "\<forall>b\<in>set xs. start x \<le> start b" using tiles_bounds[OF t] p s by fastforce
  with Cons.IH[OF t] show ?case by simp
qed

lemma tiles_distinct: "tiles a bs z \<Longrightarrow> distinct (map start bs)"
proof (induction bs arbitrary: a)
  case Nil then show ?case by simp
next
  case (Cons x xs)
  then have t: "tiles (a + span x) xs z" and p: "1 \<le> span x" and s: "start x = a" by simp_all
  have "\<forall>b\<in>set xs. start x < start b" using tiles_bounds[OF t] p s by fastforce
  then have "start x \<notin> start ` set xs" by auto
  with Cons.IH[OF t] show ?case by simp
qed

lemma tiles_iff:
  "bs \<noteq> [] \<Longrightarrow> tiles a bs z \<longleftrightarrow>
     (start (hd bs) = a \<and> contiguous bs \<and> start (last bs) + span (last bs) = z \<and>
      list_all (\<lambda>b. 1 \<le> span b) bs)"
proof (induction bs arbitrary: a)
  case Nil
  then show ?case by simp
next
  case (Cons x xs)
  note IH = Cons.IH
  show ?case
  proof (cases xs)
    case Nil
    then show ?thesis by auto
  next
    case tl: (Cons y ys)
    have ih: "tiles (a + span x) (y # ys) z \<longleftrightarrow>
       (start y = a + span x \<and> contiguous (y # ys) \<and>
        start (last (y # ys)) + span (last (y # ys)) = z \<and>
        list_all (\<lambda>b. 1 \<le> span b) (y # ys))"
      using IH[of "a + span x"] tl by simp
    have "tiles a (x # y # ys) z \<longleftrightarrow>
       (start x = a \<and> 1 \<le> span x \<and> tiles (a + span x) (y # ys) z)"
      by simp
    also have "\<dots> \<longleftrightarrow>
       (start x = a \<and> 1 \<le> span x \<and> start y = start x + span x \<and> contiguous (y # ys) \<and>
        start (last (y # ys)) + span (last (y # ys)) = z \<and>
        list_all (\<lambda>b. 1 \<le> span b) (y # ys))"
      unfolding ih by blast
    finally have step: "tiles a (x # y # ys) z \<longleftrightarrow>
       (start x = a \<and> 1 \<le> span x \<and> start y = start x + span x \<and> contiguous (y # ys) \<and>
        start (last (y # ys)) + span (last (y # ys)) = z \<and>
        list_all (\<lambda>b. 1 \<le> span b) (y # ys))" .
    show ?thesis unfolding tl step by auto
  qed
qed

lemma valid_partition_tiles: "valid_partition bs \<longleftrightarrow> (bs \<noteq> [] \<and> tiles 0 bs 1440)"
proof (cases "bs = []")
  case True then show ?thesis by (simp add: valid_partition_def covers_day_def)
next
  case False
  show ?thesis using tiles_iff[OF False, of 0 1440] tiles_sorted[of 0 bs 1440] False
    by (auto simp: valid_partition_def covers_day_def spans_positive_def sorted_by_start_def)
qed

subsection \<open>The splice on a tiling\<close>

lemma scan_right_tiles:
  "tiles a bs z \<Longrightarrow> a < en \<Longrightarrow> en \<le> z \<Longrightarrow>
   last_overlap bs en < length bs \<and>
   scan_right bs en =
     (let cur = bs ! last_overlap bs en; over = start cur + span cur - en in
      if over > 0 then (over, tasks cur, drop (last_overlap bs en + 1) bs)
      else (0, [], drop (last_overlap bs en + 1) bs))"
proof (induction bs arbitrary: a)
  case Nil then show ?case by simp
next
  case (Cons x xs)
  show ?case
  proof (cases "start x + span x \<ge> en")
    case True
    then show ?thesis by (simp add: last_overlap_def Let_def)
  next
    case False
    with Cons.prems have "tiles (a + span x) xs z" "a + span x < en" by simp_all
    from Cons.IH[OF this(1) this(2) Cons.prems(3)] False show ?thesis
      by (simp add: last_overlap_def Let_def)
  qed
qed

lemma splice_loop_tiles:
  "tiles a todo z \<Longrightarrow> a \<le> st \<Longrightarrow> 1 \<le> sp \<Longrightarrow> st + sp \<le> z \<Longrightarrow>
   first_overlap todo st \<le> last_overlap todo (st + sp) \<and>
   last_overlap todo (st + sp) < length todo \<and>
   splice_loop slots todo nxt st sp ts =
     nxt @ take (first_overlap todo st) todo
         @ left_remainder (todo ! first_overlap todo st) st
         @ [\<lparr>start = st, span = sp, tasks = ts\<rparr>]
         @ right_remainder (todo ! last_overlap todo (st + sp)) (st + sp)
         @ drop (last_overlap todo (st + sp) + 1) todo"
proof (induction todo arbitrary: a nxt)
  case Nil then show ?case by simp
next
  case (Cons s rest)
  from Cons.prems have s: "start s = a" "1 \<le> span s" and t: "tiles (a + span s) rest z" by simp_all
  show ?case
  proof (cases "start s + span s \<le> st")
    case True
    with s have "a + span s \<le> st" by simp
    from Cons.IH[OF t this Cons.prems(3,4), of "nxt @ [copy_block s]"] True Cons.prems(3)
    show ?thesis by (simp add: first_overlap_def last_overlap_def)
  next
    case False
    have lt: "a < st + sp" using Cons.prems by simp
    from scan_right_tiles[OF Cons.prems(1) lt Cons.prems(4)]
    have m: "last_overlap (s # rest) (st + sp) < length (s # rest)"
      and sc: "scan_right (s # rest) (st + sp) =
     (let cur = (s # rest) ! last_overlap (s # rest) (st + sp); over = start cur + span cur - (st + sp) in
      if over > 0 then (over, tasks cur, drop (last_overlap (s # rest) (st + sp) + 1) (s # rest))
      else (0, [], drop (last_overlap (s # rest) (st + sp) + 1) (s # rest)))" by blast+
    have f0: "first_overlap (s # rest) st = 0" using False by (simp add: first_overlap_def)
    have no: "\<not> (start s \<ge> st + sp)" using s Cons.prems by simp
    show ?thesis
      unfolding f0 using m False no s
      apply (simp only: splice_loop.simps Let_def sc)
      apply (simp add: left_remainder_def right_remainder_def Let_def)
      done
  qed
qed

subsection \<open>Validity of the splice\<close>

lemma valid_defaultDay: "valid_partition defaultDay"
  by (simp add: valid_partition_tiles defaultDay_def upt_rec)

lemma scan_right_valid:
  "tiles a bs z \<Longrightarrow> a < en \<Longrightarrow> en \<le> z \<Longrightarrow> scan_right bs en = (r, rt, after) \<Longrightarrow>
   0 \<le> r \<and> tiles (en + r) after z"
proof (induction bs arbitrary: a)
  case Nil then show ?case by simp
next
  case (Cons x xs)
  show ?case
  proof (cases "start x + span x \<ge> en")
    case True
    with Cons.prems show ?thesis by (auto simp: Let_def split: if_splits)
  next
    case False
    with Cons.prems have "tiles (a + span x) xs z" "a + span x < en" "scan_right xs en = (r, rt, after)"
      by simp_all
    from Cons.IH[OF this(1) this(2) Cons.prems(3) this(3)] show ?thesis .
  qed
qed

lemma splice_loop_valid:
  "tiles a todo z \<Longrightarrow> a \<le> st \<Longrightarrow> 1 \<le> sp \<Longrightarrow> st + sp \<le> z \<Longrightarrow> tiles a0 nxt a \<Longrightarrow>
   tiles a0 (splice_loop slots todo nxt st sp ts) z"
proof (induction todo arbitrary: a nxt)
  case Nil then show ?case by simp
next
  case (Cons s rest)
  from Cons.prems have s: "start s = a" "1 \<le> span s" and t: "tiles (a + span s) rest z" by simp_all
  show ?case
  proof (cases "start s + span s \<le> st")
    case True
    with s have le: "a + span s \<le> st" by simp
    have "tiles a0 (nxt @ [copy_block s]) (a + span s)"
      using Cons.prems(5) s by (simp add: tiles_append)
    from Cons.IH[OF t le Cons.prems(3,4) this] True show ?thesis by simp
  next
    case False
    have lt: "a < st + sp" using Cons.prems by simp
    obtain r rt after where sc: "scan_right (s # rest) (st + sp) = (r, rt, after)"
      by (cases "scan_right (s # rest) (st + sp)") auto
    from scan_right_valid[OF Cons.prems(1) lt Cons.prems(4) sc]
    have r: "0 \<le> r" and ta: "tiles (st + sp + r) after z" by simp_all
    have no: "\<not> (start s \<ge> st + sp)" using s Cons.prems by simp
    have n1: "tiles a0 (if start s < st then nxt @ [\<lparr>start = start s, span = st - start s, tasks = tasks s\<rparr>] else nxt) st"
      using Cons.prems(2,5) s by (auto simp: tiles_append)
    have "splice_loop slots (s # rest) nxt st sp ts =
       (if start s < st then nxt @ [\<lparr>start = start s, span = st - start s, tasks = tasks s\<rparr>] else nxt)
       @ [\<lparr>start = st, span = sp, tasks = ts\<rparr>]
       @ (if r > 0 then [\<lparr>start = st + sp, span = r, tasks = rt\<rparr>] else []) @ after"
      using False no by (simp only: splice_loop.simps Let_def sc) simp
    moreover have "tiles a0 (\<dots>) z"
      using n1 ta r Cons.prems(3) by (auto simp: tiles_append)
    ultimately show ?thesis by simp
  qed
qed

lemma splice_valid:
  assumes "valid_partition slots" "0 \<le> st" "1 \<le> sp" "st + sp \<le> 1440"
  shows "valid_partition (replaceRangeWithSingleBlock slots st sp ts)"
proof -
  from assms(1) have t: "tiles 0 slots 1440" by (simp add: valid_partition_tiles)
  have "tiles 0 (splice_loop slots slots [] st sp ts) 1440"
    by (rule splice_loop_valid[OF t assms(2,3,4)]) simp
  moreover have "splice_loop slots slots [] st sp ts \<noteq> []"
    using splice_loop_tiles[OF t assms(2,3,4), of slots "[]" ts] by simp
  ultimately show ?thesis by (simp add: valid_partition_tiles replaceRangeWithSingleBlock_def)
qed

lemma splice_decomp:
  assumes "valid_partition slots" "0 \<le> st" "1 \<le> sp" "st + sp \<le> 1440"
  shows "first_overlap slots st \<le> last_overlap slots (st + sp) \<and>
   last_overlap slots (st + sp) < length slots \<and>
   replaceRangeWithSingleBlock slots st sp ts =
     take (first_overlap slots st) slots
         @ left_remainder (slots ! first_overlap slots st) st
         @ [\<lparr>start = st, span = sp, tasks = ts\<rparr>]
         @ right_remainder (slots ! last_overlap slots (st + sp)) (st + sp)
         @ drop (last_overlap slots (st + sp) + 1) slots"
proof -
  from assms(1) have t: "tiles 0 slots 1440" by (simp add: valid_partition_tiles)
  from splice_loop_tiles[OF t assms(2,3,4), of slots "[]" ts] show ?thesis
    by (simp add: replaceRangeWithSingleBlock_def)
qed

lemma filter_start_unique:
  "distinct (map start bs) \<Longrightarrow> b \<in> set bs \<Longrightarrow> filter (\<lambda>x. start x = start b \<and> P x) bs = (if P b then [b] else [])"
proof (induction bs)
  case Nil then show ?case by simp
next
  case (Cons x xs)
  show ?case
  proof (cases "x = b")
    case True
    with Cons.prems have "start b \<notin> start ` set xs" by simp
    then have "\<forall>y\<in>set xs. start y \<noteq> start b" by (auto simp: image_iff)
    then have "filter (\<lambda>x. start x = start b \<and> P x) xs = []" by (simp add: filter_empty_conv)
    with True show ?thesis by simp
  next
    case False
    with Cons.prems have "b \<in> set xs" "distinct (map start xs)" by auto
    moreover from this Cons.prems have "start x \<noteq> start b" by auto
    ultimately have "b \<in> set xs" "distinct (map start xs)" "start x \<noteq> start b" by blast+
    with Cons.IH show ?thesis by simp
  qed
qed

subsection \<open>The run of overlapping blocks\<close>

lemma tiles_span_pos: "tiles a bs z \<Longrightarrow> b \<in> set bs \<Longrightarrow> 1 \<le> span b"
  by (induction bs arbitrary: a) auto

lemma last_overlap_iff:
  "tiles a bs z \<Longrightarrow> a < en \<Longrightarrow> k < length bs \<Longrightarrow>
   (k \<le> last_overlap bs en \<longleftrightarrow> start (bs ! k) < en)"
proof (induction bs arbitrary: a k)
  case Nil then show ?case by simp
next
  case (Cons x xs)
  from Cons.prems have s: "start x = a" "1 \<le> span x" and t: "tiles (a + span x) xs z" by simp_all
  show ?case
  proof (cases k)
    case 0
    with s Cons.prems show ?thesis by simp
  next
    case (Suc k')
    with Cons.prems have k': "k' < length xs" by simp
    show ?thesis
    proof (cases "start x + span x < en")
      case True
      with s have "a + span x < en" by simp
      from Cons.IH[OF t this k'] True Suc show ?thesis by (simp add: last_overlap_def)
    next
      case False
      have "xs ! k' \<in> set xs" using k' by simp
      from tiles_bounds[OF t this] False s have "\<not> start (xs ! k') < en" by simp
      with False Suc show ?thesis by (simp add: last_overlap_def)
    qed
  qed
qed

lemma first_overlap_iff:
  "tiles a bs z \<Longrightarrow> k < length bs \<Longrightarrow>
   (first_overlap bs st \<le> k \<longleftrightarrow> st < start (bs ! k) + span (bs ! k))"
proof (induction bs arbitrary: a k)
  case Nil then show ?case by simp
next
  case (Cons x xs)
  from Cons.prems have s: "start x = a" "1 \<le> span x" and t: "tiles (a + span x) xs z" by simp_all
  show ?case
  proof (cases k)
    case 0
    then show ?thesis by (simp add: first_overlap_def)
  next
    case (Suc k')
    with Cons.prems have k': "k' < length xs" by simp
    show ?thesis
    proof (cases "start x + span x \<le> st")
      case True
      from Cons.IH[OF t k'] True Suc show ?thesis by (simp add: first_overlap_def)
    next
      case False
      have "xs ! k' \<in> set xs" using k' by simp
      from tiles_bounds[OF t this] have "a + span x \<le> start (xs ! k')" by simp
      moreover have "1 \<le> span (xs ! k')"
        using tiles_span_pos[OF t \<open>xs ! k' \<in> set xs\<close>] .
      ultimately show ?thesis using False Suc s by (simp add: first_overlap_def)
    qed
  qed
qed

lemma overlap_run:
  assumes "valid_partition slots" "0 \<le> st" "1 \<le> sp" "st + sp \<le> 1440" "k < length slots"
  shows "(first_overlap slots st \<le> k \<and> k \<le> last_overlap slots (st + sp)) \<longleftrightarrow>
         (start (slots ! k) < st + sp \<and> st < start (slots ! k) + span (slots ! k))"
proof -
  from assms(1) have t: "tiles 0 slots 1440" by (simp add: valid_partition_tiles)
  have "0 < st + sp" using assms by simp
  from last_overlap_iff[OF t this assms(5)] first_overlap_iff[OF t assms(5), of st]
  show ?thesis by blast
qed

lemma set_take_nth: "x \<in> set (take i xs) \<Longrightarrow> \<exists>j. j < i \<and> j < length xs \<and> x = xs ! j"
  by (auto simp: in_set_conv_nth)

lemma set_drop_nth: "x \<in> set (drop i xs) \<Longrightarrow> \<exists>j. i \<le> j \<and> j < length xs \<and> x = xs ! j"
proof -
  assume "x \<in> set (drop i xs)"
  then obtain k where k: "k < length (drop i xs)" "x = drop i xs ! k" by (auto simp: in_set_conv_nth)
  then have "i + k < length xs" "x = xs ! (i + k)" by (simp_all)
  then show ?thesis by (intro exI[of _ "i + k"]) simp
qed

lemma in_concat_take:
  "t \<in> set (concat (map f (take i xs))) \<longleftrightarrow>
     (\<exists>j. j < i \<and> j < length xs \<and> t \<in> set (f (xs ! j)))"
proof
  assume "t \<in> set (concat (map f (take i xs)))"
  then obtain x where x: "x \<in> set (take i xs)" "t \<in> set (f x)" by auto
  from set_take_nth[OF x(1)] x(2) show "\<exists>j. j < i \<and> j < length xs \<and> t \<in> set (f (xs ! j))"
    by blast
next
  assume "\<exists>j. j < i \<and> j < length xs \<and> t \<in> set (f (xs ! j))"
  then obtain j where j: "j < i" "j < length xs" "t \<in> set (f (xs ! j))" by blast
  then have "xs ! j \<in> set (take i xs)" by (auto simp: in_set_conv_nth intro!: exI[of _ j])
  with j(3) show "t \<in> set (concat (map f (take i xs)))" by auto
qed

lemma in_concat_drop:
  "t \<in> set (concat (map f (drop i xs))) \<longleftrightarrow>
     (\<exists>j. i \<le> j \<and> j < length xs \<and> t \<in> set (f (xs ! j)))"
proof
  assume "t \<in> set (concat (map f (drop i xs)))"
  then obtain x where x: "x \<in> set (drop i xs)" "t \<in> set (f x)" by auto
  from set_drop_nth[OF x(1)] x(2) show "\<exists>j. i \<le> j \<and> j < length xs \<and> t \<in> set (f (xs ! j))"
    by blast
next
  assume "\<exists>j. i \<le> j \<and> j < length xs \<and> t \<in> set (f (xs ! j))"
  then obtain j where j: "i \<le> j" "j < length xs" "t \<in> set (f (xs ! j))" by blast
  then have "xs ! j \<in> set (drop i xs)"
    by (auto simp: in_set_conv_nth intro!: exI[of _ "j - i"])
  with j(3) show "t \<in> set (concat (map f (drop i xs)))" by auto
qed

subsection \<open>The days of the examples\<close>

lemma valid_day_with_A: "valid_partition day_with_A"
  by (simp add: valid_partition_tiles day_with_A_def defaultDay_def upt_rec)

lemma tasks_defaultDay: "j < 24 \<Longrightarrow> tasks (defaultDay ! j) = []"
  by (simp add: defaultDay_def)

lemma length_defaultDay: "length defaultDay = 24"
  by (simp add: defaultDay_def)

subsection \<open>Merging and splitting at a position\<close>

lemma merge_take_drop:
  "i + 1 < length xs \<Longrightarrow> take (i + 1) (xs[i := v]) @ drop (i + 2) (xs[i := v]) = take i xs @ [v] @ drop (i + 2) xs"
  by (simp add: take_Suc_conv_app_nth)

lemma tiles_nth_adjacent:
  "tiles a bs z \<Longrightarrow> i + 1 < length bs \<Longrightarrow> start (bs ! i) + span (bs ! i) = start (bs ! (i + 1))"
proof (induction bs arbitrary: a i)
  case Nil then show ?case by simp
next
  case (Cons x xs)
  show ?case
  proof (cases i)
    case 0
    with Cons.prems show ?thesis by (cases xs) auto
  next
    case (Suc j)
    with Cons.prems Cons.IH[of "a + span x" j] show ?thesis by simp
  qed
qed

lemma merge_explicit:
  "mergeSlots (pre @ a # b # post) (int (length pre)) =
     (if start a + span a = start b
      then Inr (pre @ \<lparr>start = start a, span = span a + span b, tasks = tasks a @ tasks b\<rparr> # post)
      else Inr (pre @ a # b # post))"
  by (simp add: mergeSlots_def Let_def nth_append)

lemma unmerge_explicit:
  "unmergeSlot (pre @ s # post) (int (length pre)) =
     (if span s \<le> 60 then pre @ s # post
      else pre @ \<lparr>start = start s, span = 60, tasks = tasks s\<rparr>
               # \<lparr>start = start s + 60, span = span s - 60, tasks = []\<rparr> # post)"
  by (simp add: unmergeSlot_def Let_def nth_append)

lemma split_at_nth: "k < length xs \<Longrightarrow> xs = take k xs @ xs ! k # drop (k + 1) xs"
  by (simp add: id_take_nth_drop)

lemma unmerge_nth:
  assumes "0 \<le> i" "i < int (length slots)"
  shows "unmergeSlot slots i =
     (if span (slots ! nat i) \<le> 60 then slots
      else take (nat i) slots
           @ [\<lparr>start = start (slots ! nat i), span = 60, tasks = tasks (slots ! nat i)\<rparr>,
              \<lparr>start = start (slots ! nat i) + 60, span = span (slots ! nat i) - 60, tasks = []\<rparr>]
           @ drop (nat i + 1) slots)"
proof -
  have k: "nat i < length slots" using assms by simp
  have l: "int (length (take (nat i) slots)) = i" using assms by simp
  from unmerge_explicit[of "take (nat i) slots" "slots ! nat i" "drop (nat i + 1) slots"]
  show ?thesis unfolding l using split_at_nth[OF k] by simp
qed

lemma three_merge_split:
  assumes "span a = 60" "span b = 60" "span c = 60" "start b = start a + 60" "start c = start a + 120"
  shows "mergeSlots (pre @ a # b # c # post) (int (length pre)) =
           Inr (pre @ \<lparr>start = start a, span = 120, tasks = tasks a @ tasks b\<rparr> # c # post)"
    and "mergeSlots (pre @ \<lparr>start = start a, span = 120, tasks = tasks a @ tasks b\<rparr> # c # post)
           (int (length pre)) =
           Inr (pre @ \<lparr>start = start a, span = 180, tasks = tasks a @ tasks b @ tasks c\<rparr> # post)"
    and "unmergeSlot (pre @ \<lparr>start = start a, span = 180, tasks = tasks a @ tasks b @ tasks c\<rparr> # post)
           (int (length pre)) =
           pre @ \<lparr>start = start a, span = 60, tasks = tasks a @ tasks b @ tasks c\<rparr>
               # \<lparr>start = start a + 60, span = 120, tasks = []\<rparr> # post"
  using assms by (simp_all add: merge_explicit unmerge_explicit)

subsection \<open>Copies of tasks\<close>

lemma makeCopies_snd: "snd (makeCopies rnd n ts) = n + length ts"
  by (induction ts arbitrary: n) (simp_all add: split_beta)

lemma makeCopies_length: "length (fst (makeCopies rnd n ts)) = length ts"
  by (induction ts arbitrary: n) (simp_all add: split_beta)

lemma makeCopies_nth:
  "k < length ts \<Longrightarrow> fst (makeCopies rnd n ts) ! k = (ts ! k)\<lparr>task_id := rnd (n + k)\<rparr>"
proof (induction ts arbitrary: n k)
  case Nil then show ?case by simp
next
  case (Cons t ts)
  show ?case
  proof (cases k)
    case 0 then show ?thesis by (simp add: split_beta)
  next
    case (Suc j)
    with Cons.prems Cons.IH[of j "Suc n"] show ?thesis by (simp add: split_beta)
  qed
qed

lemma makeCopies_text: "map task_text (fst (makeCopies rnd n ts)) = map task_text ts"
  by (induction ts arbitrary: n) (simp_all add: split_beta)

lemma makeCopies_done: "map task_done (fst (makeCopies rnd n ts)) = map task_done ts"
  by (induction ts arbitrary: n) (simp_all add: split_beta)

lemma makeCopies_eq: "makeCopies rnd n ts = (fst (makeCopies rnd n ts), n + length ts)"
  using makeCopies_snd[of rnd n ts] by (metis prod.collapse)

lemma append_copies_other:
  "\<forall>b \<in> set bs. \<not> (start b = st \<and> span b = sp) \<Longrightarrow> append_copies rnd n bs st sp ts = (bs, n)"
  by (induction bs) auto

lemma append_copies_one:
  assumes "\<forall>b \<in> set pre. \<not> (start b = st \<and> span b = sp)"
    and "\<forall>b \<in> set post. \<not> (start b = st \<and> span b = sp)"
  shows "append_copies rnd n (pre @ \<lparr>start = st, span = sp, tasks = old\<rparr> # post) st sp ts =
         (pre @ \<lparr>start = st, span = sp, tasks = old @ fst (makeCopies rnd n ts)\<rparr> # post,
          n + length ts)"
  using assms(1)
proof (induction pre)
  case Nil
  show ?case using append_copies_other[OF assms(2), of rnd "n + length ts" ts] makeCopies_eq[of rnd n ts]
    by (simp add: split_beta makeCopies_snd)
next
  case (Cons x xs)
  then have nx: "\<not> (start x = st \<and> span x = sp)"
    and ih: "append_copies rnd n (xs @ \<lparr>start = st, span = sp, tasks = old\<rparr> # post) st sp ts =
         (xs @ \<lparr>start = st, span = sp, tasks = old @ fst (makeCopies rnd n ts)\<rparr> # post,
          n + length ts)"
    by simp_all
  have "append_copies rnd n (x # (xs @ \<lparr>start = st, span = sp, tasks = old\<rparr> # post)) st sp ts =
        (let (rest', n2) = append_copies rnd n (xs @ \<lparr>start = st, span = sp, tasks = old\<rparr> # post) st sp ts
         in (x # rest', n2))"
    using nx by (simp only: append_copies.simps if_False)
  then show ?case unfolding ih by simp
qed

subsection \<open>The loop over the days\<close>

lemma apply_days_Cons:
  "apply_days rnd (d # ds) prev nxt st sp ts mode n =
     (case prev d of
        None \<Rightarrow> Inl TypeError
      | Some slots \<Rightarrow>
          apply_days rnd ds prev (nxt(d \<mapsto> fst (reshape_day rnd n slots st sp ts mode))) st sp ts mode
            (snd (reshape_day rnd n slots st sp ts mode)))"
  by (simp add: reshape_day_def split_beta Let_def split: option.splits)

lemma distinct_start_others:
  "distinct (map start (pre @ x # post)) \<Longrightarrow> b \<in> set pre \<union> set post \<Longrightarrow> start b \<noteq> start x"
  by (auto simp: image_iff)

lemma append_on_splice:
  assumes "valid_partition slots" "0 \<le> st" "1 \<le> sp" "st + sp \<le> 1440"
  shows "append_copies rnd n (replaceRangeWithSingleBlock slots st sp []) st sp ts =
         (replaceRangeWithSingleBlock slots st sp (fst (makeCopies rnd n ts)), n + length ts)"
proof -
  let ?pre = "take (first_overlap slots st) slots @ left_remainder (slots ! first_overlap slots st) st"
  let ?post = "right_remainder (slots ! last_overlap slots (st + sp)) (st + sp)
               @ drop (last_overlap slots (st + sp) + 1) slots"
  have e: "\<And>new. replaceRangeWithSingleBlock slots st sp new =
                ?pre @ \<lparr>start = st, span = sp, tasks = new\<rparr> # ?post"
    using splice_decomp[OF assms] by simp
  have "valid_partition (replaceRangeWithSingleBlock slots st sp [])"
    by (rule splice_valid[OF assms])
  then have t: "tiles 0 (replaceRangeWithSingleBlock slots st sp []) 1440"
    by (simp add: valid_partition_tiles)
  have "distinct (map start (replaceRangeWithSingleBlock slots st sp []))"
    by (rule tiles_distinct[OF t])
  then have "distinct (map start (?pre @ \<lparr>start = st, span = sp, tasks = []\<rparr> # ?post))"
    by (simp only: e)
  from distinct_start_others[OF this]
  have o: "\<forall>b \<in> set ?pre. \<not> (start b = st \<and> span b = sp)"
          "\<forall>b \<in> set ?post. \<not> (start b = st \<and> span b = sp)"
    by fastforce+
  from append_copies_one[OF o, of rnd n "[]" ts] show ?thesis unfolding e by simp
qed

lemma append_copies_tiles: "tiles a (fst (append_copies rnd n bs st sp ts)) z = tiles a bs z"
  by (induction bs arbitrary: a n) (simp_all add: split_beta)

lemma append_copies_nonempty: "fst (append_copies rnd n bs st sp ts) = [] \<longleftrightarrow> bs = []"
  by (cases bs) (simp_all add: split_beta)

lemma reshape_day_valid:
  assumes "valid_partition slots" "0 \<le> st" "1 \<le> sp" "st + sp \<le> 1440"
  shows "valid_partition (fst (reshape_day rnd n slots st sp ts mode))"
proof -
  have "\<And>new. valid_partition (replaceRangeWithSingleBlock slots st sp new)"
    by (rule splice_valid[OF assms])
  then show ?thesis
    by (simp add: reshape_day_def split_beta Let_def valid_partition_tiles
                  append_copies_tiles append_copies_nonempty)
qed

lemma reshape_day_replace:
  "reshape_day rnd n slots st sp ts ''replace'' =
     (replaceRangeWithSingleBlock slots st sp (fst (makeCopies rnd n ts)), n + length ts)"
  by (simp add: reshape_day_def split_beta makeCopies_snd)

lemma apply_days_result:
  "distinct ds \<Longrightarrow> \<forall>d \<in> set ds. prev d \<noteq> None \<Longrightarrow>
   \<exists>nxt' n'. apply_days rnd ds prev nxt st sp ts mode n = Inr (nxt', n') \<and>
     (\<forall>k. k \<notin> set ds \<longrightarrow> nxt' k = nxt k) \<and>
     (\<forall>d \<in> set ds. \<exists>slots m. prev d = Some slots \<and>
         nxt' d = Some (fst (reshape_day rnd m slots st sp ts mode)))"
proof (induction ds arbitrary: nxt n)
  case Nil
  then show ?case by simp
next
  case (Cons d ds)
  from Cons.prems obtain slots where p: "prev d = Some slots" by auto
  let ?r = "reshape_day rnd n slots st sp ts mode"
  from Cons.prems have dd: "distinct ds" "d \<notin> set ds" "\<forall>d \<in> set ds. prev d \<noteq> None" by simp_all
  from Cons.IH[OF dd(1) dd(3), of "nxt(d \<mapsto> fst ?r)" "snd ?r"]
  obtain nxt' n' where
    r: "apply_days rnd ds prev (nxt(d \<mapsto> fst ?r)) st sp ts mode (snd ?r) = Inr (nxt', n')"
    and k: "\<forall>k. k \<notin> set ds \<longrightarrow> nxt' k = (nxt(d \<mapsto> fst ?r)) k"
    and s: "\<forall>d \<in> set ds. \<exists>slots m. prev d = Some slots \<and>
         nxt' d = Some (fst (reshape_day rnd m slots st sp ts mode))"
    by blast
  have 1: "apply_days rnd (d # ds) prev nxt st sp ts mode n = Inr (nxt', n')"
    using r p by (simp only: apply_days_Cons option.case)
  have 2: "\<forall>k. k \<notin> set (d # ds) \<longrightarrow> nxt' k = nxt k" using k by simp
  have "nxt' d = Some (fst ?r)" using k dd(2) by simp
  with p s have 3: "\<forall>x \<in> set (d # ds). \<exists>slots m. prev x = Some slots \<and>
         nxt' x = Some (fst (reshape_day rnd m slots st sp ts mode))"
    by auto
  from 1 2 3 show ?case by blast
qed

lemma apply_days_replace:
  "distinct ds \<Longrightarrow> \<forall>d \<in> set ds. prev d \<noteq> None \<Longrightarrow>
   \<exists>nxt'. apply_days rnd ds prev nxt st sp ts ''replace'' n = Inr (nxt', n + length ds * length ts) \<and>
     (\<forall>k. k \<notin> set ds \<longrightarrow> nxt' k = nxt k) \<and>
     (\<forall>j < length ds. \<exists>slots. prev (ds ! j) = Some slots \<and>
         nxt' (ds ! j) =
           Some (replaceRangeWithSingleBlock slots st sp (fst (makeCopies rnd (n + j * length ts) ts))))"
proof (induction ds arbitrary: nxt n)
  case Nil
  then show ?case by simp
next
  case (Cons d ds)
  from Cons.prems obtain slots where p: "prev d = Some slots" by auto
  let ?r = "replaceRangeWithSingleBlock slots st sp (fst (makeCopies rnd n ts))"
  from Cons.prems have dd: "distinct ds" "d \<notin> set ds" "\<forall>d \<in> set ds. prev d \<noteq> None" by simp_all
  from Cons.IH[OF dd(1) dd(3), of "nxt(d \<mapsto> ?r)" "n + length ts"]
  obtain nxt' where
    r: "apply_days rnd ds prev (nxt(d \<mapsto> ?r)) st sp ts ''replace'' (n + length ts) =
          Inr (nxt', n + length ts + length ds * length ts)"
    and k: "\<forall>k. k \<notin> set ds \<longrightarrow> nxt' k = (nxt(d \<mapsto> ?r)) k"
    and s: "\<forall>j < length ds. \<exists>slots. prev (ds ! j) = Some slots \<and>
         nxt' (ds ! j) =
           Some (replaceRangeWithSingleBlock slots st sp
                   (fst (makeCopies rnd (n + length ts + j * length ts) ts)))"
    by blast
  have 1: "apply_days rnd (d # ds) prev nxt st sp ts ''replace'' n =
             Inr (nxt', n + length (d # ds) * length ts)"
    using r p by (simp only: apply_days_Cons option.case reshape_day_replace fst_conv snd_conv)
                 (simp add: add.assoc)
  have 2: "\<forall>k. k \<notin> set (d # ds) \<longrightarrow> nxt' k = nxt k" using k by simp
  have d0: "nxt' d = Some ?r" using k dd(2) by simp
  have 3: "\<forall>j < length (d # ds). \<exists>slots. prev ((d # ds) ! j) = Some slots \<and>
         nxt' ((d # ds) ! j) =
           Some (replaceRangeWithSingleBlock slots st sp (fst (makeCopies rnd (n + j * length ts) ts)))"
  proof (intro allI impI)
    fix j assume j: "j < length (d # ds)"
    show "\<exists>slots. prev ((d # ds) ! j) = Some slots \<and>
         nxt' ((d # ds) ! j) =
           Some (replaceRangeWithSingleBlock slots st sp (fst (makeCopies rnd (n + j * length ts) ts)))"
    proof (cases j)
      case 0
      with p d0 show ?thesis by simp
    next
      case (Suc i)
      with j have "i < length ds" by simp
      with s Suc show ?thesis by (simp add: add.assoc add.commute add.left_commute)
    qed
  qed
  from 1 2 3 show ?case by blast
qed

subsection \<open>Weeks\<close>

lemma distinct_DAYS: "distinct DAYS"
  by (simp add: DAYS_def)

lemma length_DAYS: "length DAYS = 7"
  by (simp add: DAYS_def)

lemma day_key_in_DAYS: "0 \<le> d \<Longrightarrow> d < 7 \<Longrightarrow> day_key d \<in> set DAYS"
  by (simp add: day_key_def length_DAYS)

lemma week_valid_day:
  "week_valid s \<Longrightarrow> d \<in> set DAYS \<Longrightarrow> \<exists>slots. s d = Some slots \<and> valid_partition slots"
  by (auto simp: week_valid_def list_all_iff split: option.splits)

lemma week_validI:
  "(\<And>d. d \<in> set DAYS \<Longrightarrow> \<exists>slots. s d = Some slots \<and> valid_partition slots) \<Longrightarrow> week_valid s"
  by (fastforce simp: week_valid_def list_all_iff split: option.splits)

lemma valid_block_range:
  assumes "valid_partition slots" "k < length slots"
  shows "0 \<le> start (slots ! k) \<and> 1 \<le> span (slots ! k) \<and> start (slots ! k) + span (slots ! k) \<le> 1440"
proof -
  from assms(1) have t: "tiles 0 slots 1440" by (simp add: valid_partition_tiles)
  have m: "slots ! k \<in> set slots" using assms(2) by simp
  from tiles_bounds[OF t m] tiles_span_pos[OF t m] show ?thesis by simp
qed

lemma valid_defaultSchedule: "week_valid defaultSchedule"
  by (simp add: week_valid_def defaultSchedule_def DAYS_def valid_defaultDay)

lemma valid_planned_day: "valid_partition (planned_day ts)"
  by (simp add: valid_partition_tiles planned_day_def defaultDay_def upt_rec)

lemma valid_week_example: "week_valid week_example"
  by (simp add: week_valid_def week_example_def defaultSchedule_def DAYS_def valid_defaultDay
        valid_planned_day)

lemma setDaySlots_other:
  "setDaySlots prev sel upd = Inr nxt \<Longrightarrow> d \<noteq> day_key sel \<Longrightarrow> nxt d = prev d"
  by (auto simp: setDaySlots_def split: option.splits sum.splits)

lemma splice_filter:
  assumes "valid_partition slots" "0 \<le> st" "1 \<le> sp" "st + sp \<le> 1440"
  shows "filter (\<lambda>b. start b = st \<and> span b = sp) (replaceRangeWithSingleBlock slots st sp new)
           = [\<lparr>start = st, span = sp, tasks = new\<rparr>]"
proof -
  let ?res = "replaceRangeWithSingleBlock slots st sp new"
  have v: "valid_partition ?res" by (rule splice_valid[OF assms])
  have mem: "\<lparr>start = st, span = sp, tasks = new\<rparr> \<in> set ?res"
    using splice_decomp[OF assms, of new] by simp
  have "distinct (map start ?res)" using v tiles_distinct by (auto simp: valid_partition_tiles)
  from filter_start_unique[OF this mem, of "\<lambda>b. span b = sp"] show ?thesis by simp
qed

lemma replace_week_example:
  "result_day (applyBlockToAllDays rnd n week_example 1 2 ''replace'') ''Monday''
     = Some (planned_day [task_gym\<lparr>task_id := rnd (n + 1)\<rparr>]) \<and>
   result_day (applyBlockToAllDays rnd n week_example 1 2 ''replace'') ''Tuesday''
     = Some (planned_day [task_gym\<lparr>task_id := rnd (n + 2)\<rparr>])"
  by (simp add: result_day_def applyBlockToAllDays_def week_example_def defaultSchedule_def
        DAYS_def day_key_def planned_day_def defaultDay_def upt_rec
        replaceRangeWithSingleBlock_def eval_nat_numeral)

subsection \<open>Every operation keeps the days valid\<close>

lemma tiles_cong:
  "map start bs = map start cs \<Longrightarrow> map span bs = map span cs \<Longrightarrow> tiles a bs z = tiles a cs z"
proof (induction bs arbitrary: cs a)
  case Nil
  then show ?case by simp
next
  case (Cons b bs)
  then obtain c cs' where c: "cs = c # cs'" by (cases cs) auto
  with Cons.prems have "start b = start c" "span b = span c" "map start bs = map start cs'"
    "map span bs = map span cs'" by simp_all
  with Cons.IH[of cs' "a + span b"] c show ?case by simp
qed

lemma valid_tasks_update:
  assumes "valid_partition slots" "k < length slots"
  shows "valid_partition (slots[k := (slots ! k)\<lparr>tasks := t\<rparr>])"
proof -
  have s: "map start (slots[k := (slots ! k)\<lparr>tasks := t\<rparr>]) = map start slots"
    using assms(2) by (simp add: map_update list_update_same_conv)
  have p: "map span (slots[k := (slots ! k)\<lparr>tasks := t\<rparr>]) = map span slots"
    using assms(2) by (simp add: map_update list_update_same_conv)
  from tiles_cong[OF s p, of 0 1440] assms(1) show ?thesis
    by (simp add: valid_partition_tiles)
qed

lemma merge_valid:
  assumes "valid_partition slots" "mergeSlots slots i = Inr s'"
  shows "valid_partition s'"
proof (cases "i \<ge> int (length slots) - 1 \<or> i < 0")
  case True
  with assms show ?thesis by (auto simp: mergeSlots_def split: if_splits)
next
  case False
  then have k: "nat i + 1 < length slots" and i: "0 \<le> i" by auto
  let ?pre = "take (nat i) slots"
  let ?a = "slots ! nat i"
  let ?b = "slots ! (nat i + 1)"
  let ?post = "drop (nat i + 2) slots"
  have d: "slots = ?pre @ ?a # ?b # ?post"
    using k by (metis Cons_nth_drop_Suc Suc_eq_plus1 Suc_lessD add_2_eq_Suc' append_take_drop_id)
  have l: "int (length ?pre) = i" using k i by simp
  from assms(1) have t: "tiles 0 (?pre @ ?a # ?b # ?post) 1440"
    using d by (simp add: valid_partition_tiles)
  then have t': "tiles 0 (?pre @ \<lparr>start = start ?a, span = span ?a + span ?b, tasks = tasks ?a @ tasks ?b\<rparr> # ?post) 1440"
    by (auto simp: tiles_append add.assoc)
  from merge_explicit[of ?pre ?a ?b ?post] assms(2) d l
  have "s' = slots \<or> s' = ?pre @ \<lparr>start = start ?a, span = span ?a + span ?b, tasks = tasks ?a @ tasks ?b\<rparr> # ?post"
    by (auto split: if_splits)
  with assms(1) t' show ?thesis by (auto simp: valid_partition_tiles)
qed

lemma unmerge_valid:
  assumes "valid_partition slots"
  shows "valid_partition (unmergeSlot slots i)"
proof (cases "0 \<le> i \<and> i < int (length slots)")
  case False
  then show ?thesis using assms by (auto simp: unmergeSlot_def)
next
  case True
  then have i: "0 \<le> i" "i < int (length slots)" by simp_all
  then have k: "nat i < length slots" by simp
  let ?s = "slots ! nat i"
  show ?thesis
  proof (cases "span ?s \<le> 60")
    case True
    with unmerge_nth[OF i] assms show ?thesis by simp
  next
    case False
    from assms have "tiles 0 (take (nat i) slots @ ?s # drop (nat i + 1) slots) 1440"
      using split_at_nth[OF k] by (simp add: valid_partition_tiles)
    then have "tiles 0 (take (nat i) slots
           @ [\<lparr>start = start ?s, span = 60, tasks = tasks ?s\<rparr>,
              \<lparr>start = start ?s + 60, span = span ?s - 60, tasks = []\<rparr>]
           @ drop (nat i + 1) slots) 1440"
      using False by (auto simp: tiles_append)
    with unmerge_nth[OF i] False show ?thesis by (simp add: valid_partition_tiles)
  qed
qed

lemma clamp_range:
  "(s::int) < e \<Longrightarrow>
   0 \<le> max 0 (min 1439 s) \<and> 1 \<le> max 1 (min 1440 e) - max 0 (min 1439 s) \<and>
   max 0 (min 1439 s) + (max 1 (min 1440 e) - max 0 (min 1439 s)) \<le> 1440"
  by (simp add: max_def min_def)

lemma customRange_Splice:
  "customRange raw = Splice s sp \<Longrightarrow>
   \<exists>r startMin endMin. raw = Some r \<and> r \<noteq> [] \<and> 2 \<le> length (split_range [] r) \<and>
      parseTimeToMinutes (split_range [] r ! 0) = Some startMin \<and>
      parseTimeToMinutes (split_range [] r ! 1) = Some endMin \<and> startMin < endMin \<and>
      s = max 0 (min 1439 startMin) \<and> sp = max 1 (min 1440 endMin) - max 0 (min 1439 startMin)"
  by (auto simp: customRange_def Let_def MINS_IN_DAY_def
           split: option.splits if_splits prod.splits)

lemma customRange_range:
  "customRange raw = Splice s sp \<Longrightarrow> 0 \<le> s \<and> 1 \<le> sp \<and> s + sp \<le> 1440"
  using customRange_Splice[of raw s sp] clamp_range by blast

lemma addTask_valid:
  "valid_partition slots \<Longrightarrow> addTask rnd n slots i txt = Inr (slots', n') \<Longrightarrow> valid_partition slots'"
  by (auto simp: addTask_def valid_tasks_update split: if_splits)

lemma updateTask_valid:
  "valid_partition slots \<Longrightarrow> updateTask slots i tid p = Inr slots' \<Longrightarrow> valid_partition slots'"
  by (auto simp: updateTask_def valid_tasks_update split: if_splits)

lemma removeTask_valid:
  "valid_partition slots \<Longrightarrow> removeTask slots i tid = Inr slots' \<Longrightarrow> valid_partition slots'"
  by (auto simp: removeTask_def valid_tasks_update split: if_splits)

lemma all_valid_upd:
  "all_valid s \<Longrightarrow> valid_partition slots \<Longrightarrow> all_valid (s(k \<mapsto> slots))"
  by (auto simp: all_valid_def)

lemma setDaySlots_valid:
  assumes "all_valid prev" "setDaySlots prev sel upd = Inr nxt"
    and "\<And>slots slots'. valid_partition slots \<Longrightarrow> upd slots = Inr slots' \<Longrightarrow> valid_partition slots'"
  shows "all_valid nxt"
proof -
  from assms(2) obtain slots slots' where
    p: "prev (day_key sel) = Some slots" and u: "upd slots = Inr slots'"
    and n: "nxt = prev(day_key sel \<mapsto> slots')"
    by (auto simp: setDaySlots_def split: option.splits sum.splits)
  from assms(1) p have "valid_partition slots" by (auto simp: all_valid_def)
  from assms(3)[OF this u] have "valid_partition slots'" .
  from all_valid_upd[OF assms(1) this] n show ?thesis by simp
qed

lemma apply_valid:
  assumes "all_valid prev" "applyBlockToAllDays rnd n prev sel blockIndex mode = Inr (nxt, n')"
  shows "all_valid nxt"
proof -
  from assms(2) obtain src where src: "prev (day_key sel) = Some src"
    by (auto simp: applyBlockToAllDays_def split: option.splits)
  show ?thesis
  proof (cases "blockIndex < 0 \<or> blockIndex \<ge> int (length src)")
    case True
    with assms src show ?thesis by (auto simp: applyBlockToAllDays_def)
  next
    case False
    let ?b = "src ! nat blockIndex"
    have v: "valid_partition src" using assms(1) src by (auto simp: all_valid_def)
    have k: "nat blockIndex < length src" using False by auto
    from valid_block_range[OF v k]
    have rg: "0 \<le> start ?b" "1 \<le> span ?b" "start ?b + span ?b \<le> 1440" by simp_all
    have r: "apply_days rnd DAYS prev prev (start ?b) (span ?b) (tasks ?b) mode n = Inr (nxt, n')"
      using assms(2) src False by (simp add: applyBlockToAllDays_def Let_def)
    have pres: "\<forall>d \<in> set DAYS. prev d \<noteq> None" using assms(1) by (simp add: all_valid_def)
    from apply_days_result[OF distinct_DAYS pres, of rnd prev "start ?b" "span ?b" "tasks ?b" mode n] r
    have o: "\<forall>k. k \<notin> set DAYS \<longrightarrow> nxt k = prev k"
      and s: "\<forall>d \<in> set DAYS. \<exists>slots m. prev d = Some slots \<and>
         nxt d = Some (fst (reshape_day rnd m slots (start ?b) (span ?b) (tasks ?b) mode))"
      by auto
    have "\<forall>k slots. nxt k = Some slots \<longrightarrow> valid_partition slots"
    proof (intro allI impI)
      fix k slots assume a: "nxt k = Some slots"
      show "valid_partition slots"
      proof (cases "k \<in> set DAYS")
        case True
        with s obtain old m where "prev k = Some old"
          "nxt k = Some (fst (reshape_day rnd m old (start ?b) (span ?b) (tasks ?b) mode))" by blast
        moreover from this assms(1) have "valid_partition old" by (auto simp: all_valid_def)
        ultimately show ?thesis using a reshape_day_valid[OF _ rg, of old rnd m "tasks ?b" mode] by simp
      next
        case False
        with o a assms(1) show ?thesis by (auto simp: all_valid_def)
      qed
    qed
    moreover have "\<forall>d \<in> set DAYS. nxt d \<noteq> None" using s by fastforce
    ultimately show ?thesis by (simp add: all_valid_def)
  qed
qed

lemma step_valid:
  assumes "all_valid (schedule e)" "op_ok x" "step rnd e x = Inr e'"
  shows "all_valid (schedule e')"
proof (cases x)
  case (MergeSlots i)
  with assms(3) obtain nxt where
    "setDaySlots (schedule e) (selectedDay e) (\<lambda>slots. mergeSlots slots i) = Inr nxt"
    "schedule e' = nxt"
    by (auto simp: with_schedule_def split: sum.splits)
  with setDaySlots_valid[OF assms(1) this(1)] merge_valid show ?thesis by blast
next
  case (UnmergeSlot i)
  with assms(3) obtain nxt where
    "setDaySlots (schedule e) (selectedDay e) (\<lambda>slots. Inr (unmergeSlot slots i)) = Inr nxt"
    "schedule e' = nxt"
    by (auto simp: with_schedule_def split: sum.splits)
  with setDaySlots_valid[OF assms(1) this(1)] unmerge_valid show ?thesis by auto
next
  case (AddTask i inp)
  show ?thesis
  proof (cases "inp = None \<or> inp = Some []")
    case True
    with AddTask assms show ?thesis by auto
  next
    case False
    then obtain tx where t: "inp = Some tx" "tx \<noteq> []" by auto
    with AddTask assms(3) obtain slots slots' n' where
      "schedule e (day_key (selectedDay e)) = Some slots"
      "addTask rnd (drawn e) slots i tx = Inr (slots', n')"
      "schedule e' = (schedule e)(day_key (selectedDay e) \<mapsto> slots')"
      by (auto split: option.splits sum.splits)
    moreover from this assms(1) have "valid_partition slots" by (auto simp: all_valid_def)
    ultimately show ?thesis using addTask_valid all_valid_upd[OF assms(1)] by metis
  qed
next
  case (UpdateTask i tid p)
  with assms(3) obtain nxt where
    "setDaySlots (schedule e) (selectedDay e) (\<lambda>slots. updateTask slots i tid p) = Inr nxt"
    "schedule e' = nxt"
    by (auto simp: with_schedule_def split: sum.splits)
  with setDaySlots_valid[OF assms(1) this(1)] updateTask_valid show ?thesis by blast
next
  case (RemoveTask i tid)
  with assms(3) obtain nxt where
    "setDaySlots (schedule e) (selectedDay e) (\<lambda>slots. removeTask slots i tid) = Inr nxt"
    "schedule e' = nxt"
    by (auto simp: with_schedule_def split: sum.splits)
  with setDaySlots_valid[OF assms(1) this(1)] removeTask_valid show ?thesis by blast
next
  case (SpliceRange st sp ts)
  with assms(2) have rg: "0 \<le> st" "1 \<le> sp" "st + sp \<le> 1440" by simp_all
  from SpliceRange assms(3) obtain nxt where
    "setDaySlots (schedule e) (selectedDay e)
       (\<lambda>slots. Inr (replaceRangeWithSingleBlock slots st sp ts)) = Inr nxt"
    "schedule e' = nxt"
    by (auto simp: with_schedule_def split: sum.splits)
  with setDaySlots_valid[OF assms(1) this(1)] splice_valid[OF _ rg] show ?thesis by auto
next
  case (ApplyBlockToAllDays blockIndex mode)
  with assms(3) obtain nxt n' where
    "applyBlockToAllDays rnd (drawn e) (schedule e) (selectedDay e) blockIndex mode = Inr (nxt, n')"
    "schedule e' = nxt"
    by (auto split: sum.splits)
  with apply_valid[OF assms(1) this(1)] show ?thesis by simp
next
  case (ResetSelectedDay confirmed)
  with assms all_valid_upd[OF assms(1) valid_defaultDay] show ?thesis by (auto split: if_splits)
next
  case (AddCustomBlock raw)
  show ?thesis
  proof (cases "customRange raw")
    case (Splice s sp)
    from customRange_range[OF this] have rg: "0 \<le> s" "1 \<le> sp" "s + sp \<le> 1440" by simp_all
    from AddCustomBlock Splice assms(3) obtain nxt where
      "setDaySlots (schedule e) (selectedDay e)
         (\<lambda>slots. Inr (replaceRangeWithSingleBlock slots s sp [])) = Inr nxt"
      "schedule e' = nxt"
      by (auto simp: with_schedule_def split: sum.splits)
    with setDaySlots_valid[OF assms(1) this(1)] splice_valid[OF _ rg] show ?thesis by auto
  next
    case NoInput
    with AddCustomBlock assms show ?thesis by auto
  next
    case (Alert m)
    with AddCustomBlock assms show ?thesis by auto
  qed
next
  case (SetSelectedDay d)
  with assms show ?thesis by auto
qed

lemma run_ops_valid:
  "all_valid (schedule e) \<Longrightarrow> list_all op_ok ops \<Longrightarrow> run_ops rnd e ops = Inr e' \<Longrightarrow>
   all_valid (schedule e')"
proof (induction ops arbitrary: e)
  case Nil
  then show ?case by simp
next
  case (Cons x xs)
  from Cons.prems(3) obtain e1 where s: "step rnd e x = Inr e1" and r: "run_ops rnd e1 xs = Inr e'"
    by (auto split: sum.splits)
  from Cons.prems(2) have ok: "op_ok x" "list_all op_ok xs" by simp_all
  from step_valid[OF Cons.prems(1) ok(1) s] have "all_valid (schedule e1)" .
  from Cons.IH[OF this ok(2) r] show ?case .
qed

lemma all_valid_default: "all_valid defaultSchedule"
  by (auto simp: all_valid_def defaultSchedule_def DAYS_def valid_defaultDay split: if_splits)

subsection \<open>The parser of times\<close>

lemma hm_range:
  assumes "(case hm of
              (Some h, Some m) \<Rightarrow> Some (max 0 (min 23 (g h)) * 60 + max 0 (min 59 m))
            | _ \<Rightarrow> None) = Some (v::int)"
  shows "0 \<le> v \<and> v \<le> 1439"
proof -
  from assms obtain h m where "hm = (Some h, Some m)"
    by (cases hm) (auto split: option.splits)
  with assms have v: "v = max 0 (min 23 (g h)) * 60 + max 0 (min 59 m)" by simp
  have "0 \<le> max 0 (min 23 (g h))" "max 0 (min 23 (g h)) \<le> 23"
       "0 \<le> max 0 (min 59 m)" "max 0 (min 59 m) \<le> 59" by simp_all
  with v show ?thesis by linarith
qed

lemma parse_range:
  assumes "parseTimeToMinutes x = Some v"
  shows "0 \<le> v \<and> v \<le> 1439"
proof (cases "x = []")
  case True
  with assms show ?thesis by (simp only: parseTimeToMinutes_def if_True) simp
next
  case False
  from assms show ?thesis
    unfolding parseTimeToMinutes_def Let_def
    by (simp only: False if_False) (erule hm_range)
qed

lemma customRange_two_parts:
  assumes "r \<noteq> []" "2 \<le> length (split_range [] r)"
  shows "customRange (Some r) =
     (case (parseTimeToMinutes (split_range [] r ! 0), parseTimeToMinutes (split_range [] r ! 1)) of
        (Some startMin, Some endMin) \<Rightarrow>
          if endMin \<le> startMin then Alert ''End time must be after start time.''
          else Splice (max 0 (min 1439 startMin))
                 (max 1 (min 1440 endMin) - max 0 (min 1439 startMin))
      | _ \<Rightarrow> Alert ''Could not parse the time. Try formats like 9:30, 10, 1:05pm.'')"
  using assms by (simp add: customRange_def Let_def MINS_IN_DAY_def split: option.splits)

subsection \<open>Operations that do not throw\<close>

lemma mergeSlots_ok: "0 \<le> i \<Longrightarrow> \<exists>s'. mergeSlots slots i = Inr s'"
  by (simp add: mergeSlots_def Let_def)

lemma applyBlockToAllDays_ok:
  assumes "all_valid prev" "prev (day_key sel) = Some src"
  shows "\<exists>r. applyBlockToAllDays rnd n prev sel blockIndex mode = Inr r"
proof (cases "blockIndex < 0 \<or> blockIndex \<ge> int (length src)")
  case True
  with assms(2) show ?thesis by (auto simp: applyBlockToAllDays_def)
next
  case False
  have pres: "\<forall>d \<in> set DAYS. prev d \<noteq> None" using assms(1) by (simp add: all_valid_def)
  from apply_days_result[OF distinct_DAYS pres, of rnd prev "start (src ! nat blockIndex)"
      "span (src ! nat blockIndex)" "tasks (src ! nat blockIndex)" mode n]
  obtain nxt n' where "apply_days rnd DAYS prev prev (start (src ! nat blockIndex))
      (span (src ! nat blockIndex)) (tasks (src ! nat blockIndex)) mode n = Inr (nxt, n')"
    by blast
  with False assms(2) show ?thesis by (simp add: applyBlockToAllDays_def Let_def)
qed

lemma with_setDaySlots_ok:
  "schedule e (day_key (selectedDay e)) = Some slots \<Longrightarrow> upd slots = Inr slots' \<Longrightarrow>
   \<exists>e'. with_schedule e (setDaySlots (schedule e) (selectedDay e) upd) = Inr e'"
  by (simp add: setDaySlots_def with_schedule_def)

lemma step_no_throw:
  assumes "all_valid (schedule e)" "0 \<le> selectedDay e" "selectedDay e < 7" "op_in_range e x"
  shows "\<exists>e'. step rnd e x = Inr e'"
proof -
  from all_valid_def assms(1) day_key_in_DAYS[OF assms(2,3)]
  obtain slots where p: "schedule e (day_key (selectedDay e)) = Some slots" by fastforce
  then have sl: "selected_slots e = slots" by (simp add: selected_slots_def)
  show ?thesis
  proof (cases x)
    case (MergeSlots i)
    with assms(4) mergeSlots_ok[of i slots] obtain s' where m: "mergeSlots slots i = Inr s'" by auto
    show ?thesis unfolding MergeSlots step.simps
      by (rule with_setDaySlots_ok[where upd = "\<lambda>slots. mergeSlots slots i", OF p m])
  next
    case (UnmergeSlot i)
    show ?thesis unfolding UnmergeSlot step.simps
      by (rule with_setDaySlots_ok[where upd = "\<lambda>slots. Inr (unmergeSlot slots i)", OF p refl])
  next
    case (AddTask i inp)
    with assms(4) sl p show ?thesis by (auto simp: addTask_def split: option.splits)
  next
    case (UpdateTask i tid q)
    with assms(4) sl have "\<exists>s'. updateTask slots i tid q = Inr s'" by (simp add: updateTask_def)
    then obtain s' where m: "updateTask slots i tid q = Inr s'" by blast
    show ?thesis unfolding UpdateTask step.simps
      by (rule with_setDaySlots_ok[where upd = "\<lambda>slots. updateTask slots i tid q", OF p m])
  next
    case (RemoveTask i tid)
    with assms(4) sl have "\<exists>s'. removeTask slots i tid = Inr s'" by (simp add: removeTask_def)
    then obtain s' where m: "removeTask slots i tid = Inr s'" by blast
    show ?thesis unfolding RemoveTask step.simps
      by (rule with_setDaySlots_ok[where upd = "\<lambda>slots. removeTask slots i tid", OF p m])
  next
    case (SpliceRange st sp ts)
    show ?thesis unfolding SpliceRange step.simps
      by (rule with_setDaySlots_ok[where
            upd = "\<lambda>slots. Inr (replaceRangeWithSingleBlock slots st sp ts)", OF p refl])
  next
    case (ApplyBlockToAllDays blockIndex mode)
    from applyBlockToAllDays_ok[OF assms(1) p, of rnd "drawn e" blockIndex mode]
    obtain r where "applyBlockToAllDays rnd (drawn e) (schedule e) (selectedDay e) blockIndex mode = Inr r"
      by blast
    with ApplyBlockToAllDays show ?thesis by (cases r) simp
  next
    case (ResetSelectedDay confirmed)
    then show ?thesis by simp
  next
    case (AddCustomBlock raw)
    show ?thesis
    proof (cases "customRange raw")
      case (Splice s sp)
      have "\<exists>e'. with_schedule e (setDaySlots (schedule e) (selectedDay e)
               (\<lambda>slots. Inr (replaceRangeWithSingleBlock slots s sp []))) = Inr e'"
        by (rule with_setDaySlots_ok[where
              upd = "\<lambda>slots. Inr (replaceRangeWithSingleBlock slots s sp [])", OF p refl])
      with AddCustomBlock Splice show ?thesis by simp
    next
      case NoInput
      with AddCustomBlock show ?thesis by simp
    next
      case (Alert m)
      with AddCustomBlock show ?thesis by simp
    qed
  next
    case (SetSelectedDay d)
    then show ?thesis by simp
  qed
qed

section \<open>The splice covers exactly the request\<close>

text \<open>
  Claim C2. For a day that satisfies the four invariants and a range with \<open>0 \<le> st < 1440\<close>,
  \<open>1 \<le> sp\<close> and \<open>st + sp \<le> 1440\<close>, the result of \<^verbatim>\<open>replaceRangeWithSingleBlock\<close>
  satisfies the four invariants again, has exactly one block with that start and span, and
  this block carries the new tasks. The blocks that overlap the range are those from index
  \<open>first_overlap\<close> to index \<open>last_overlap\<close>; they are replaced by the optional left remainder,
  the new block and the optional right remainder, between one and three blocks, and the
  blocks before and after them are kept as they are.
\<close>

theorem splice_exact:
  assumes "valid_partition slots" "0 \<le> st" "st < 1440" "1 \<le> sp" "st + sp \<le> 1440"
  shows "valid_partition (replaceRangeWithSingleBlock slots st sp newTasks) \<and>
         filter (\<lambda>b. start b = st \<and> span b = sp) (replaceRangeWithSingleBlock slots st sp newTasks)
           = [\<lparr>start = st, span = sp, tasks = newTasks\<rparr>] \<and>
         (\<forall>k < length slots.
            (first_overlap slots st \<le> k \<and> k \<le> last_overlap slots (st + sp)) \<longleftrightarrow>
            (start (slots ! k) < st + sp \<and> st < start (slots ! k) + span (slots ! k))) \<and>
         first_overlap slots st \<le> last_overlap slots (st + sp) \<and>
         last_overlap slots (st + sp) < length slots \<and>
         replaceRangeWithSingleBlock slots st sp newTasks =
           take (first_overlap slots st) slots
           @ (left_remainder (slots ! first_overlap slots st) st
              @ [\<lparr>start = st, span = sp, tasks = newTasks\<rparr>]
              @ right_remainder (slots ! last_overlap slots (st + sp)) (st + sp))
           @ drop (last_overlap slots (st + sp) + 1) slots \<and>
         length (left_remainder (slots ! first_overlap slots st) st
              @ [\<lparr>start = st, span = sp, tasks = newTasks\<rparr>]
              @ right_remainder (slots ! last_overlap slots (st + sp)) (st + sp)) \<in> {1, 2, 3}"
proof -
  let ?res = "replaceRangeWithSingleBlock slots st sp newTasks"
  let ?new = "\<lparr>start = st, span = sp, tasks = newTasks\<rparr>"
  have v: "valid_partition ?res" by (rule splice_valid[OF assms(1,2,4,5)])
  note d = splice_decomp[OF assms(1,2,4,5), of newTasks]
  have mem: "?new \<in> set ?res" using d by simp
  have "distinct (map start ?res)" using v tiles_distinct by (auto simp: valid_partition_tiles)
  from filter_start_unique[OF this mem, of "\<lambda>b. span b = sp"]
  have f: "filter (\<lambda>b. start b = st \<and> span b = sp) ?res = [?new]" by simp
  have r: "\<forall>k < length slots.
            (first_overlap slots st \<le> k \<and> k \<le> last_overlap slots (st + sp)) \<longleftrightarrow>
            (start (slots ! k) < st + sp \<and> st < start (slots ! k) + span (slots ! k))"
    using overlap_run[OF assms(1,2,4,5)] by blast
  have len: "length (left_remainder (slots ! first_overlap slots st) st @ [?new]
                     @ right_remainder (slots ! last_overlap slots (st + sp)) (st + sp)) \<in> {1, 2, 3}"
    by (simp add: left_remainder_def right_remainder_def)
  have e: "?res = take (first_overlap slots st) slots
           @ (left_remainder (slots ! first_overlap slots st) st @ [?new]
              @ right_remainder (slots ! last_overlap slots (st + sp)) (st + sp))
           @ drop (last_overlap slots (st + sp) + 1) slots"
    using d by simp
  from d have i: "first_overlap slots st \<le> last_overlap slots (st + sp)"
    and m: "last_overlap slots (st + sp) < length slots" by blast+
  from v f r i m e len show ?thesis by blast
qed

theorem splice_exact_witness:
  "valid_partition defaultDay \<and> (0::int) \<le> 570 \<and> (570::int) < 1440 \<and> (1::int) \<le> 45 \<and>
   (570::int) + 45 \<le> 1440 \<and>
   valid_partition (replaceRangeWithSingleBlock defaultDay 570 45 []) \<and>
   filter (\<lambda>b. start b = 570 \<and> span b = 45) (replaceRangeWithSingleBlock defaultDay 570 45 [])
     = [\<lparr>start = 570, span = 45, tasks = []\<rparr>] \<and>
   replaceRangeWithSingleBlock defaultDay 570 45 [] =
     take 9 defaultDay
     @ [\<lparr>start = 540, span = 30, tasks = []\<rparr>, \<lparr>start = 570, span = 45, tasks = []\<rparr>,
        \<lparr>start = 615, span = 45, tasks = []\<rparr>]
     @ drop 11 defaultDay"
proof -
  have h: "(0::int) \<le> 570" "(570::int) < 1440" "(1::int) \<le> 45" "(570::int) + 45 \<le> 1440"
    by simp_all
  from splice_exact[OF valid_defaultDay h, of "[]"]
  have c: "valid_partition (replaceRangeWithSingleBlock defaultDay 570 45 []) \<and>
      filter (\<lambda>b. start b = 570 \<and> span b = 45) (replaceRangeWithSingleBlock defaultDay 570 45 [])
        = [\<lparr>start = 570, span = 45, tasks = []\<rparr>]"
    by blast
  have e: "replaceRangeWithSingleBlock defaultDay 570 45 [] =
     take 9 defaultDay
     @ [\<lparr>start = 540, span = 30, tasks = []\<rparr>, \<lparr>start = 570, span = 45, tasks = []\<rparr>,
        \<lparr>start = 615, span = 45, tasks = []\<rparr>]
     @ drop 11 defaultDay"
    by (simp add: replaceRangeWithSingleBlock_def defaultDay_def upt_rec)
  from valid_defaultDay h c e show ?thesis by blast
qed

section \<open>How the splice redistributes tasks\<close>

text \<open>
  Claim C3, amended. For a valid day and a valid range: when the first overlapping block
  starts before \<open>st\<close>, the result holds a left remainder with that block's whole task list;
  when the last overlapping block ends after \<open>st + sp\<close>, the result holds a right remainder
  with that block's whole task list; the tasks of the result are, in order, those of the
  blocks before the run, of the left remainder, the new tasks, those of the right remainder
  and of the blocks after the run. The blocks strictly between the first and the last
  overlapping block give nothing to the result: a task is in the result exactly when it is a
  new task, a task of a block before the run, a task of the first overlapping block and a
  left remainder is emitted, a task of the last overlapping block and a right remainder is
  emitted, or a task of a block after the run. So a task of an interior block that is neither
  a new task nor a task of a block outside the interior is in no block of the result. The
  witness is the example of the claim: the task \<^verbatim>\<open>A\<close> of the block from 60 to 120 is gone
  after the splice of the range from 30 to 150.
\<close>

theorem splice_tasks:
  assumes "valid_partition slots" "0 \<le> st" "st < 1440" "1 \<le> sp" "st + sp \<le> 1440"
  shows "(start (slots ! first_overlap slots st) < st \<longrightarrow>
            \<lparr>start = start (slots ! first_overlap slots st),
             span = st - start (slots ! first_overlap slots st),
             tasks = tasks (slots ! first_overlap slots st)\<rparr>
              \<in> set (replaceRangeWithSingleBlock slots st sp newTasks)) \<and>
         (st + sp < start (slots ! last_overlap slots (st + sp)) + span (slots ! last_overlap slots (st + sp)) \<longrightarrow>
            \<lparr>start = st + sp,
             span = start (slots ! last_overlap slots (st + sp)) + span (slots ! last_overlap slots (st + sp)) - (st + sp),
             tasks = tasks (slots ! last_overlap slots (st + sp))\<rparr>
              \<in> set (replaceRangeWithSingleBlock slots st sp newTasks)) \<and>
         concat (map tasks (replaceRangeWithSingleBlock slots st sp newTasks)) =
           concat (map tasks (take (first_overlap slots st) slots))
           @ (if start (slots ! first_overlap slots st) < st
              then tasks (slots ! first_overlap slots st) else [])
           @ newTasks
           @ (if st + sp < start (slots ! last_overlap slots (st + sp)) + span (slots ! last_overlap slots (st + sp))
              then tasks (slots ! last_overlap slots (st + sp)) else [])
           @ concat (map tasks (drop (last_overlap slots (st + sp) + 1) slots)) \<and>
         (\<forall>k t. first_overlap slots st < k \<and> k < last_overlap slots (st + sp) \<and>
                t \<in> set (tasks (slots ! k)) \<and> t \<notin> set newTasks \<and>
                (\<forall>j < length slots. (j \<le> first_overlap slots st \<or> last_overlap slots (st + sp) \<le> j)
                    \<longrightarrow> t \<notin> set (tasks (slots ! j)))
              \<longrightarrow> (\<forall>b \<in> set (replaceRangeWithSingleBlock slots st sp newTasks). t \<notin> set (tasks b))) \<and>
         (\<forall>t. t \<in> set (concat (map tasks (replaceRangeWithSingleBlock slots st sp newTasks))) \<longleftrightarrow>
              (t \<in> set newTasks \<or>
               (\<exists>j. j < first_overlap slots st \<and> t \<in> set (tasks (slots ! j))) \<or>
               (start (slots ! first_overlap slots st) < st \<and>
                  t \<in> set (tasks (slots ! first_overlap slots st))) \<or>
               (st + sp < start (slots ! last_overlap slots (st + sp))
                          + span (slots ! last_overlap slots (st + sp)) \<and>
                  t \<in> set (tasks (slots ! last_overlap slots (st + sp)))) \<or>
               (\<exists>j. last_overlap slots (st + sp) < j \<and> j < length slots \<and>
                    t \<in> set (tasks (slots ! j)))))"
proof -
  let ?i = "first_overlap slots st"
  let ?m = "last_overlap slots (st + sp)"
  let ?res = "replaceRangeWithSingleBlock slots st sp newTasks"
  note d = splice_decomp[OF assms(1,2,4,5), of newTasks]
  from d have im: "?i \<le> ?m" and m: "?m < length slots" by blast+
  from d have e: "?res = take ?i slots @ left_remainder (slots ! ?i) st
         @ [\<lparr>start = st, span = sp, tasks = newTasks\<rparr>]
         @ right_remainder (slots ! ?m) (st + sp) @ drop (?m + 1) slots" by blast
  have l: "start (slots ! ?i) < st \<longrightarrow>
            \<lparr>start = start (slots ! ?i), span = st - start (slots ! ?i), tasks = tasks (slots ! ?i)\<rparr> \<in> set ?res"
    unfolding e by (simp add: left_remainder_def)
  have r: "st + sp < start (slots ! ?m) + span (slots ! ?m) \<longrightarrow>
            \<lparr>start = st + sp, span = start (slots ! ?m) + span (slots ! ?m) - (st + sp),
             tasks = tasks (slots ! ?m)\<rparr> \<in> set ?res"
    unfolding e by (simp add: right_remainder_def)
  have c: "concat (map tasks ?res) =
           concat (map tasks (take ?i slots))
           @ (if start (slots ! ?i) < st then tasks (slots ! ?i) else [])
           @ newTasks
           @ (if st + sp < start (slots ! ?m) + span (slots ! ?m) then tasks (slots ! ?m) else [])
           @ concat (map tasks (drop (?m + 1) slots))"
    unfolding e by (simp add: left_remainder_def right_remainder_def)
  have g: "\<forall>k t. ?i < k \<and> k < ?m \<and> t \<in> set (tasks (slots ! k)) \<and> t \<notin> set newTasks \<and>
                (\<forall>j < length slots. (j \<le> ?i \<or> ?m \<le> j) \<longrightarrow> t \<notin> set (tasks (slots ! j)))
              \<longrightarrow> (\<forall>b \<in> set ?res. t \<notin> set (tasks b))"
  proof (intro allI impI ballI)
    fix k t b
    assume h: "?i < k \<and> k < ?m \<and> t \<in> set (tasks (slots ! k)) \<and> t \<notin> set newTasks \<and>
                (\<forall>j < length slots. (j \<le> ?i \<or> ?m \<le> j) \<longrightarrow> t \<notin> set (tasks (slots ! j)))"
      and b: "b \<in> set ?res"
    from h have out: "\<And>j. j < length slots \<Longrightarrow> j \<le> ?i \<or> ?m \<le> j \<Longrightarrow> t \<notin> set (tasks (slots ! j))"
      by blast
    have i: "?i < length slots" using im m by simp
    from b consider "b \<in> set (take ?i slots)" | "b \<in> set (left_remainder (slots ! ?i) st)"
      | "b = \<lparr>start = st, span = sp, tasks = newTasks\<rparr>"
      | "b \<in> set (right_remainder (slots ! ?m) (st + sp))" | "b \<in> set (drop (?m + 1) slots)"
      unfolding e by auto
    then show "t \<notin> set (tasks b)"
    proof cases
      case 1
      from set_take_nth[OF this] obtain j where "j < ?i" "j < length slots" "b = slots ! j" by blast
      with out[of j] show ?thesis by simp
    next
      case 2
      then have "tasks b = tasks (slots ! ?i)" by (auto simp: left_remainder_def split: if_splits)
      with out[of ?i] i show ?thesis by simp
    next
      case 3
      with h show ?thesis by simp
    next
      case 4
      then have "tasks b = tasks (slots ! ?m)" by (auto simp: right_remainder_def split: if_splits)
      with out[of ?m] m show ?thesis by simp
    next
      case 5
      from set_drop_nth[OF this] obtain j where "?m + 1 \<le> j" "j < length slots" "b = slots ! j" by blast
      with out[of j] show ?thesis by simp
    qed
  qed
  have x: "\<forall>t. t \<in> set (concat (map tasks ?res)) \<longleftrightarrow>
              (t \<in> set newTasks \<or>
               (\<exists>j. j < ?i \<and> t \<in> set (tasks (slots ! j))) \<or>
               (start (slots ! ?i) < st \<and> t \<in> set (tasks (slots ! ?i))) \<or>
               (st + sp < start (slots ! ?m) + span (slots ! ?m) \<and> t \<in> set (tasks (slots ! ?m))) \<or>
               (\<exists>j. ?m < j \<and> j < length slots \<and> t \<in> set (tasks (slots ! j))))"
  proof
    fix t
    have il: "?i < length slots" using im m by simp
    have a: "t \<in> set (concat (map tasks (take ?i slots))) \<longleftrightarrow>
             (\<exists>j. j < ?i \<and> t \<in> set (tasks (slots ! j)))"
      unfolding in_concat_take using il by (meson less_trans)
    have b: "t \<in> set (concat (map tasks (drop (?m + 1) slots))) \<longleftrightarrow>
             (\<exists>j. ?m < j \<and> j < length slots \<and> t \<in> set (tasks (slots ! j)))"
      unfolding in_concat_drop by (simp add: Suc_le_eq)
    have "t \<in> set (concat (map tasks ?res)) \<longleftrightarrow>
          (t \<in> set (concat (map tasks (take ?i slots))) \<or>
           (start (slots ! ?i) < st \<and> t \<in> set (tasks (slots ! ?i))) \<or>
           t \<in> set newTasks \<or>
           (st + sp < start (slots ! ?m) + span (slots ! ?m) \<and> t \<in> set (tasks (slots ! ?m))) \<or>
           t \<in> set (concat (map tasks (drop (?m + 1) slots))))"
      unfolding c by (simp split: if_splits)
    then show "t \<in> set (concat (map tasks ?res)) \<longleftrightarrow>
              (t \<in> set newTasks \<or>
               (\<exists>j. j < ?i \<and> t \<in> set (tasks (slots ! j))) \<or>
               (start (slots ! ?i) < st \<and> t \<in> set (tasks (slots ! ?i))) \<or>
               (st + sp < start (slots ! ?m) + span (slots ! ?m) \<and> t \<in> set (tasks (slots ! ?m))) \<or>
               (\<exists>j. ?m < j \<and> j < length slots \<and> t \<in> set (tasks (slots ! j))))"
      unfolding a b by blast
  qed
  from l r c g x show ?thesis by blast
qed

theorem splice_tasks_witness:
  "valid_partition day_with_A \<and> (0::int) \<le> 30 \<and> (30::int) < 1440 \<and> (1::int) \<le> 120 \<and>
   (30::int) + 120 \<le> 1440 \<and>
   replaceRangeWithSingleBlock day_with_A 30 120 [task_X] =
     \<lparr>start = 0, span = 30, tasks = []\<rparr> # \<lparr>start = 30, span = 120, tasks = [task_X]\<rparr>
     # \<lparr>start = 150, span = 30, tasks = []\<rparr> # drop 3 defaultDay \<and>
   task_A \<notin> set (concat (map tasks (replaceRangeWithSingleBlock day_with_A 30 120 [task_X])))"
proof -
  have h: "(0::int) \<le> 30" "(30::int) < 1440" "(1::int) \<le> 120" "(30::int) + 120 \<le> 1440"
    by simp_all
  have i: "first_overlap day_with_A 30 = 0"
    by (simp add: first_overlap_def day_with_A_def defaultDay_def upt_rec)
  have m: "last_overlap day_with_A (30 + 120) = 2"
    by (simp add: last_overlap_def day_with_A_def defaultDay_def upt_rec)
  have a: "task_A \<in> set (tasks (day_with_A ! 1))"
    by (simp add: day_with_A_def length_defaultDay)
  have x: "task_A \<notin> set [task_X]"
    by (simp add: task_A_def task_X_def)
  have o: "\<forall>j < length day_with_A. (j \<le> 0 \<or> 2 \<le> j) \<longrightarrow> task_A \<notin> set (tasks (day_with_A ! j))"
    by (auto simp: day_with_A_def length_defaultDay tasks_defaultDay)
  from splice_tasks[OF valid_day_with_A h, of "[task_X]"]
  have "\<forall>k t. first_overlap day_with_A 30 < k \<and> k < last_overlap day_with_A (30 + 120) \<and>
                t \<in> set (tasks (day_with_A ! k)) \<and> t \<notin> set [task_X] \<and>
                (\<forall>j < length day_with_A.
                    (j \<le> first_overlap day_with_A 30 \<or> last_overlap day_with_A (30 + 120) \<le> j)
                    \<longrightarrow> t \<notin> set (tasks (day_with_A ! j)))
              \<longrightarrow> (\<forall>b \<in> set (replaceRangeWithSingleBlock day_with_A 30 120 [task_X]). t \<notin> set (tasks b))"
    by blast
  then have gone: "\<forall>b \<in> set (replaceRangeWithSingleBlock day_with_A 30 120 [task_X]). task_A \<notin> set (tasks b)"
    unfolding i m using a x o by (metis One_nat_def lessI one_less_numeral_iff semiring_norm(76))
  have e: "replaceRangeWithSingleBlock day_with_A 30 120 [task_X] =
     \<lparr>start = 0, span = 30, tasks = []\<rparr> # \<lparr>start = 30, span = 120, tasks = [task_X]\<rparr>
     # \<lparr>start = 150, span = 30, tasks = []\<rparr> # drop 3 defaultDay"
    by (simp add: replaceRangeWithSingleBlock_def day_with_A_def defaultDay_def upt_rec)
  from gone have "task_A \<notin> set (concat (map tasks (replaceRangeWithSingleBlock day_with_A 30 120 [task_X])))"
    by simp
  with valid_day_with_A h e show ?thesis by blast
qed

text \<open>
  Claim C3 as it is written fails on a day the planner reaches. Put the task \<^verbatim>\<open>A\<close> in the
  block from 0 to 60 of the default day and splice the range from 20 to 30: both remainders
  carry \<^verbatim>\<open>A\<close>. Now splice the range from 10 to 90: the block from 30 to 60 is strictly
  interior (index 2, between the first overlapping block 0 and the last one 3) and holds
  \<^verbatim>\<open>A\<close>, and \<^verbatim>\<open>A\<close> is still in the result, in the left remainder from 0 to 10.
\<close>

theorem interior_task_survives:
  "day_A_split =
     \<lparr>start = 0, span = 20, tasks = [task_A]\<rparr> # \<lparr>start = 20, span = 10, tasks = []\<rparr>
     # \<lparr>start = 30, span = 30, tasks = [task_A]\<rparr> # drop 1 defaultDay \<and>
   valid_partition day_A_split \<and>
   first_overlap day_A_split 10 = 0 \<and> last_overlap day_A_split (10 + 80) = 3 \<and>
   task_A \<in> set (tasks (day_A_split ! 2)) \<and>
   replaceRangeWithSingleBlock day_A_split 10 80 [] =
     \<lparr>start = 0, span = 10, tasks = [task_A]\<rparr> # \<lparr>start = 10, span = 80, tasks = []\<rparr>
     # \<lparr>start = 90, span = 30, tasks = []\<rparr> # drop 2 defaultDay \<and>
   task_A \<in> set (concat (map tasks (replaceRangeWithSingleBlock day_A_split 10 80 [])))"
proof -
  have d: "day_A_split =
     \<lparr>start = 0, span = 20, tasks = [task_A]\<rparr> # \<lparr>start = 20, span = 10, tasks = []\<rparr>
     # \<lparr>start = 30, span = 30, tasks = [task_A]\<rparr> # drop 1 defaultDay"
    by (simp add: day_A_split_def replaceRangeWithSingleBlock_def defaultDay_def upt_rec)
  have v: "valid_partition day_A_split"
    unfolding d by (simp add: valid_partition_tiles defaultDay_def upt_rec)
  have i: "first_overlap day_A_split 10 = 0"
    unfolding d by (simp add: first_overlap_def)
  have m: "last_overlap day_A_split (10 + 80) = 3"
    unfolding d by (simp add: last_overlap_def defaultDay_def upt_rec)
  have a: "task_A \<in> set (tasks (day_A_split ! 2))"
    unfolding d by (simp add: eval_nat_numeral)
  have r: "replaceRangeWithSingleBlock day_A_split 10 80 [] =
     \<lparr>start = 0, span = 10, tasks = [task_A]\<rparr> # \<lparr>start = 10, span = 80, tasks = []\<rparr>
     # \<lparr>start = 90, span = 30, tasks = []\<rparr> # drop 2 defaultDay"
    unfolding d by (simp add: replaceRangeWithSingleBlock_def defaultDay_def upt_rec)
  have t: "task_A \<in> set (concat (map tasks (replaceRangeWithSingleBlock day_A_split 10 80 [])))"
    unfolding r by simp
  from d v i m a r t show ?thesis by blast
qed

section \<open>Merging a block with its successor\<close>

text \<open>
  Claim C7. In a valid day, merging at an index \<open>i\<close> that is not the last one replaces block
  \<open>i\<close> and its successor by one block that starts where block \<open>i\<close> starts, spans both, and
  carries the tasks of block \<open>i\<close> followed by those of its successor. At the last index, and
  on a pair that is not adjacent, the merge returns the array unchanged and does not throw.
\<close>

theorem merge_concat:
  "(valid_partition slots \<and> 0 \<le> i \<and> i < int (length slots) - 1 \<longrightarrow>
      mergeSlots slots i =
        Inr (take (nat i) slots
             @ [\<lparr>start = start (slots ! nat i),
                 span = span (slots ! nat i) + span (slots ! (nat i + 1)),
                 tasks = tasks (slots ! nat i) @ tasks (slots ! (nat i + 1))\<rparr>]
             @ drop (nat i + 2) slots)) \<and>
   (i = int (length slots) - 1 \<longrightarrow> mergeSlots slots i = Inr slots) \<and>
   (0 \<le> i \<and> i < int (length slots) - 1 \<and>
      start (slots ! nat i) + span (slots ! nat i) \<noteq> start (slots ! (nat i + 1)) \<longrightarrow>
      mergeSlots slots i = Inr slots)"
proof (intro conjI impI)
  assume h: "valid_partition slots \<and> 0 \<le> i \<and> i < int (length slots) - 1"
  then have t: "tiles 0 slots 1440" and n: "nat i + 1 < length slots" and i: "0 \<le> i"
    by (auto simp: valid_partition_tiles)
  from tiles_nth_adjacent[OF t n]
  have adj: "start (slots ! nat i) + span (slots ! nat i) = start (slots ! (nat i + 1))" .
  show "mergeSlots slots i =
        Inr (take (nat i) slots
             @ [\<lparr>start = start (slots ! nat i),
                 span = span (slots ! nat i) + span (slots ! (nat i + 1)),
                 tasks = tasks (slots ! nat i) @ tasks (slots ! (nat i + 1))\<rparr>]
             @ drop (nat i + 2) slots)"
    using h adj merge_take_drop[OF n] by (simp add: mergeSlots_def Let_def)
next
  assume "i = int (length slots) - 1"
  then show "mergeSlots slots i = Inr slots" by (simp add: mergeSlots_def)
next
  assume "0 \<le> i \<and> i < int (length slots) - 1 \<and>
      start (slots ! nat i) + span (slots ! nat i) \<noteq> start (slots ! (nat i + 1))"
  then show "mergeSlots slots i = Inr slots" by (simp add: mergeSlots_def Let_def)
qed

theorem merge_concat_witness:
  "(valid_partition day_with_A \<and> (0::int) \<le> 1 \<and> 1 < int (length day_with_A) - 1 \<and>
      mergeSlots day_with_A 1 =
        Inr (take 1 defaultDay @ [\<lparr>start = 60, span = 120, tasks = [task_A]\<rparr>] @ drop 3 defaultDay)) \<and>
   (23 = int (length day_with_A) - 1 \<and> mergeSlots day_with_A 23 = Inr day_with_A) \<and>
   ((0::int) \<le> 0 \<and> 0 < int (length gap_day) - 1 \<and>
      start (gap_day ! nat 0) + span (gap_day ! nat 0) \<noteq> start (gap_day ! (nat 0 + 1)) \<and>
      mergeSlots gap_day 0 = Inr gap_day)"
proof -
  have l: "length day_with_A = 24" by (simp add: day_with_A_def length_defaultDay)
  have h1: "valid_partition day_with_A \<and> (0::int) \<le> 1 \<and> 1 < int (length day_with_A) - 1"
    using valid_day_with_A l by simp
  have h2: "23 = int (length day_with_A) - 1" using l by simp
  have h3: "(0::int) \<le> 0 \<and> 0 < int (length gap_day) - 1 \<and>
      start (gap_day ! nat 0) + span (gap_day ! nat 0) \<noteq> start (gap_day ! (nat 0 + 1))"
    by (simp add: gap_day_def)
  have e: "take (nat 1) day_with_A
             @ [\<lparr>start = start (day_with_A ! nat 1),
                 span = span (day_with_A ! nat 1) + span (day_with_A ! (nat 1 + 1)),
                 tasks = tasks (day_with_A ! nat 1) @ tasks (day_with_A ! (nat 1 + 1))\<rparr>]
             @ drop (nat 1 + 2) day_with_A
         = take 1 defaultDay @ [\<lparr>start = 60, span = 120, tasks = [task_A]\<rparr>] @ drop 3 defaultDay"
    by (simp add: day_with_A_def defaultDay_def upt_rec)
  from merge_concat[of day_with_A 1] h1 e
  have c1: "mergeSlots day_with_A 1 =
        Inr (take 1 defaultDay @ [\<lparr>start = 60, span = 120, tasks = [task_A]\<rparr>] @ drop 3 defaultDay)"
    by simp
  from merge_concat[of day_with_A 23] h2 have c2: "mergeSlots day_with_A 23 = Inr day_with_A"
    by blast
  from merge_concat[of gap_day 0] h3 have c3: "mergeSlots gap_day 0 = Inr gap_day"
    by blast
  from h1 h2 h3 c1 c2 c3 show ?thesis by blast
qed

section \<open>Splitting does not undo merging\<close>

text \<open>
  Claim C8. Splitting a block of more than 60 minutes yields a head of 60 minutes with all the
  tasks of the block and a remainder of the other minutes with no task; a block of at most
  60 minutes is left as it is. So merging three adjacent one-hour blocks into one and
  splitting the result yields a head of 60 minutes and a remainder of 120 minutes, which is
  not the array of the three blocks.
\<close>

theorem split_not_inverse:
  "(0 \<le> i \<and> i < int (length slots) \<and> 60 < span (slots ! nat i) \<longrightarrow>
      unmergeSlot slots i =
        take (nat i) slots
        @ [\<lparr>start = start (slots ! nat i), span = 60, tasks = tasks (slots ! nat i)\<rparr>,
           \<lparr>start = start (slots ! nat i) + 60, span = span (slots ! nat i) - 60, tasks = []\<rparr>]
        @ drop (nat i + 1) slots) \<and>
   (0 \<le> i \<and> i < int (length slots) \<and> span (slots ! nat i) \<le> 60 \<longrightarrow>
      unmergeSlot slots i = slots) \<and>
   (span a = 60 \<and> span b = 60 \<and> span c = 60 \<and> start b = start a + 60 \<and> start c = start a + 120 \<longrightarrow>
      (\<exists>m1 m2. mergeSlots (pre @ a # b # c # post) (int (length pre)) = Inr m1 \<and>
                mergeSlots m1 (int (length pre)) = Inr m2 \<and>
                unmergeSlot m2 (int (length pre)) =
                  pre @ \<lparr>start = start a, span = 60, tasks = tasks a @ tasks b @ tasks c\<rparr>
                      # \<lparr>start = start a + 60, span = 120, tasks = []\<rparr> # post \<and>
                unmergeSlot m2 (int (length pre)) \<noteq> pre @ a # b # c # post))"
proof (intro conjI impI)
  assume "0 \<le> i \<and> i < int (length slots) \<and> 60 < span (slots ! nat i)"
  then show "unmergeSlot slots i =
        take (nat i) slots
        @ [\<lparr>start = start (slots ! nat i), span = 60, tasks = tasks (slots ! nat i)\<rparr>,
           \<lparr>start = start (slots ! nat i) + 60, span = span (slots ! nat i) - 60, tasks = []\<rparr>]
        @ drop (nat i + 1) slots"
    using unmerge_nth[of i slots] by simp
next
  assume "0 \<le> i \<and> i < int (length slots) \<and> span (slots ! nat i) \<le> 60"
  then show "unmergeSlot slots i = slots" using unmerge_nth[of i slots] by simp
next
  assume h: "span a = 60 \<and> span b = 60 \<and> span c = 60 \<and> start b = start a + 60 \<and> start c = start a + 120"
  then have h': "span a = 60" "span b = 60" "span c = 60" "start b = start a + 60" "start c = start a + 120"
    by simp_all
  note t = three_merge_split[OF h', of pre post]
  have "length (pre @ \<lparr>start = start a, span = 60, tasks = tasks a @ tasks b @ tasks c\<rparr>
                      # \<lparr>start = start a + 60, span = 120, tasks = []\<rparr> # post)
        \<noteq> length (pre @ a # b # c # post)" by simp
  then have ne: "pre @ \<lparr>start = start a, span = 60, tasks = tasks a @ tasks b @ tasks c\<rparr>
                      # \<lparr>start = start a + 60, span = 120, tasks = []\<rparr> # post
        \<noteq> pre @ a # b # c # post" by metis
  then have u: "unmergeSlot (pre @ \<lparr>start = start a, span = 180, tasks = tasks a @ tasks b @ tasks c\<rparr> # post)
           (int (length pre)) \<noteq> pre @ a # b # c # post"
    unfolding t(3) .
  show "\<exists>m1 m2. mergeSlots (pre @ a # b # c # post) (int (length pre)) = Inr m1 \<and>
                mergeSlots m1 (int (length pre)) = Inr m2 \<and>
                unmergeSlot m2 (int (length pre)) =
                  pre @ \<lparr>start = start a, span = 60, tasks = tasks a @ tasks b @ tasks c\<rparr>
                      # \<lparr>start = start a + 60, span = 120, tasks = []\<rparr> # post \<and>
                unmergeSlot m2 (int (length pre)) \<noteq> pre @ a # b # c # post"
    using t(1) t(2) t(3) u by blast
qed

theorem split_not_inverse_witness:
  "((0::int) \<le> 0 \<and> 0 < int (length [\<lparr>start = 0, span = 90, tasks = [task_A]\<rparr>]) \<and>
      60 < span ([\<lparr>start = 0, span = 90, tasks = [task_A]\<rparr>] ! nat 0) \<and>
      unmergeSlot [\<lparr>start = 0, span = 90, tasks = [task_A]\<rparr>] 0 =
        [\<lparr>start = 0, span = 60, tasks = [task_A]\<rparr>, \<lparr>start = 60, span = 30, tasks = []\<rparr>]) \<and>
   ((0::int) \<le> 1 \<and> 1 < int (length day_with_A) \<and> span (day_with_A ! nat 1) \<le> 60 \<and>
      unmergeSlot day_with_A 1 = day_with_A) \<and>
   (mergeSlots day_with_A 0 =
      Inr (\<lparr>start = 0, span = 120, tasks = [task_A]\<rparr> # drop 2 defaultDay) \<and>
    mergeSlots (\<lparr>start = 0, span = 120, tasks = [task_A]\<rparr> # drop 2 defaultDay) 0 =
      Inr (\<lparr>start = 0, span = 180, tasks = [task_A]\<rparr> # drop 3 defaultDay) \<and>
    unmergeSlot (\<lparr>start = 0, span = 180, tasks = [task_A]\<rparr> # drop 3 defaultDay) 0 =
      \<lparr>start = 0, span = 60, tasks = [task_A]\<rparr> # \<lparr>start = 60, span = 120, tasks = []\<rparr>
      # drop 3 defaultDay \<and>
    unmergeSlot (\<lparr>start = 0, span = 180, tasks = [task_A]\<rparr> # drop 3 defaultDay) 0 \<noteq> day_with_A)"
proof -
  let ?one = "[\<lparr>start = 0, span = 90, tasks = [task_A]\<rparr>]"
  have h1: "(0::int) \<le> 0 \<and> 0 < int (length ?one) \<and> 60 < span (?one ! nat 0)" by simp
  from split_not_inverse[of 0 ?one] h1
  have c1: "unmergeSlot ?one 0 =
        [\<lparr>start = 0, span = 60, tasks = [task_A]\<rparr>, \<lparr>start = 60, span = 30, tasks = []\<rparr>]"
    by simp
  have h2: "(0::int) \<le> 1 \<and> 1 < int (length day_with_A) \<and> span (day_with_A ! nat 1) \<le> 60"
    by (simp add: day_with_A_def length_defaultDay)
  from split_not_inverse[of 1 day_with_A] h2 have c2: "unmergeSlot day_with_A 1 = day_with_A"
    by blast
  have d: "day_with_A = [] @ (defaultDay ! 0) # (day_with_A ! 1) # (defaultDay ! 2) # drop 3 defaultDay"
    by (simp add: day_with_A_def defaultDay_def upt_rec)
  have h3: "span (defaultDay ! 0) = 60 \<and> span (day_with_A ! 1) = 60 \<and> span (defaultDay ! 2) = 60 \<and>
     start (day_with_A ! 1) = start (defaultDay ! 0) + 60 \<and>
     start (defaultDay ! 2) = start (defaultDay ! 0) + 120"
    by (simp add: day_with_A_def defaultDay_def)
  from split_not_inverse[of _ _ "defaultDay ! 0" "day_with_A ! 1" "defaultDay ! 2" "[]" "drop 3 defaultDay"] h3
  obtain m1 m2 where
    m: "mergeSlots ([] @ (defaultDay ! 0) # (day_with_A ! 1) # (defaultDay ! 2) # drop 3 defaultDay)
          (int (length ([]::block list))) = Inr m1"
       "mergeSlots m1 (int (length ([]::block list))) = Inr m2"
       "unmergeSlot m2 (int (length ([]::block list))) =
          [] @ \<lparr>start = start (defaultDay ! 0), span = 60,
                tasks = tasks (defaultDay ! 0) @ tasks (day_with_A ! 1) @ tasks (defaultDay ! 2)\<rparr>
             # \<lparr>start = start (defaultDay ! 0) + 60, span = 120, tasks = []\<rparr> # drop 3 defaultDay"
       "unmergeSlot m2 (int (length ([]::block list))) \<noteq>
          [] @ (defaultDay ! 0) # (day_with_A ! 1) # (defaultDay ! 2) # drop 3 defaultDay"
    by blast
  have e1: "mergeSlots day_with_A 0 =
      Inr (\<lparr>start = 0, span = 120, tasks = [task_A]\<rparr> # drop 2 defaultDay)"
    by (simp add: mergeSlots_def day_with_A_def defaultDay_def upt_rec)
  have e2: "mergeSlots (\<lparr>start = 0, span = 120, tasks = [task_A]\<rparr> # drop 2 defaultDay) 0 =
      Inr (\<lparr>start = 0, span = 180, tasks = [task_A]\<rparr> # drop 3 defaultDay)"
    by (simp add: mergeSlots_def defaultDay_def upt_rec)
  from m(1) d e1 have m1: "m1 = \<lparr>start = 0, span = 120, tasks = [task_A]\<rparr> # drop 2 defaultDay"
    by simp
  from m(2) m1 e2 have m2: "m2 = \<lparr>start = 0, span = 180, tasks = [task_A]\<rparr> # drop 3 defaultDay"
    by simp
  have c3: "unmergeSlot (\<lparr>start = 0, span = 180, tasks = [task_A]\<rparr> # drop 3 defaultDay) 0 =
      \<lparr>start = 0, span = 60, tasks = [task_A]\<rparr> # \<lparr>start = 60, span = 120, tasks = []\<rparr>
      # drop 3 defaultDay"
    using m(3) unfolding m2 by (simp add: day_with_A_def defaultDay_def)
  have c4: "unmergeSlot (\<lparr>start = 0, span = 180, tasks = [task_A]\<rparr> # drop 3 defaultDay) 0 \<noteq> day_with_A"
    using m(4) d unfolding m2 by simp
  from h1 c1 h2 c2 e1 e2 c3 c4 show ?thesis by blast
qed

section \<open>A block index out of range\<close>

text \<open>
  Claim C10. When the source day is in the schedule and has no block at \<open>blockIndex\<close>,
  \<^verbatim>\<open>applyBlockToAllDays\<close> returns the schedule it was given, for every day, in either mode; it
  does not throw and draws no random token.
\<close>

theorem apply_out_of_range:
  assumes "prev (day_key sel) = Some src"
    and "blockIndex < 0 \<or> int (length src) \<le> blockIndex"
  shows "applyBlockToAllDays rnd n prev sel blockIndex mode = Inr (prev, n)"
  using assms by (auto simp: applyBlockToAllDays_def)

theorem apply_out_of_range_witness:
  "week_example (day_key 1) = Some (planned_day [task_gym]) \<and>
   int (length (planned_day [task_gym])) \<le> 25 \<and>
   applyBlockToAllDays same_token 0 week_example 1 25 ''replace'' = Inr (week_example, 0)"
proof -
  have h1: "week_example (day_key 1) = Some (planned_day [task_gym])"
    by (simp add: week_example_def day_key_def DAYS_def)
  have l: "int (length (planned_day [task_gym])) \<le> 25"
    by (simp add: planned_day_def length_defaultDay)
  then have h2: "(25::int) < 0 \<or> int (length (planned_day [task_gym])) \<le> 25" by simp
  from apply_out_of_range[of week_example 1 "planned_day [task_gym]" 25 same_token 0 "''replace''"] h1 h2
  have "applyBlockToAllDays same_token 0 week_example 1 25 ''replace'' = Inr (week_example, 0)"
    by blast
  with h1 l show ?thesis by blast
qed

section \<open>Propagation in append mode\<close>

text \<open>
  Claim C4 says that append mode keeps the tasks a day already has at the exact target range.
  The code splices the range with an empty task list first, which replaces the block that
  was there, and appends the copies to the empty list. In the week of the example, Tuesday
  holds \<^verbatim>\<open>call mom\<close> in the block from 90 to 150; after the operation in append mode from
  Monday's block, Tuesday's block holds the copy of \<^verbatim>\<open>gym\<close> only, as Wednesday's does.
\<close>

theorem append_drops_existing_tasks:
  "result_day (applyBlockToAllDays rnd n week_example 1 2 ''append'') ''Tuesday''
     = Some (planned_day [task_gym\<lparr>task_id := rnd (n + 2)\<rparr>]) \<and>
   result_day (applyBlockToAllDays rnd n week_example 1 2 ''append'') ''Tuesday''
     \<noteq> Some (planned_day [task_call_mom, task_gym\<lparr>task_id := rnd (n + 2)\<rparr>]) \<and>
   week_example ''Tuesday'' = Some (planned_day [task_call_mom]) \<and>
   result_day (applyBlockToAllDays rnd n week_example 1 2 ''append'') ''Wednesday''
     = Some (planned_day [task_gym\<lparr>task_id := rnd (n + 3)\<rparr>])"
  by (simp add: result_day_def applyBlockToAllDays_def week_example_def defaultSchedule_def
        DAYS_def day_key_def planned_day_def defaultDay_def upt_rec
        replaceRangeWithSingleBlock_def eval_nat_numeral task_call_mom_def task_gym_def)

section \<open>Propagation in replace mode\<close>

text \<open>
  Claim C6, amended. In a week of valid days, \<^verbatim>\<open>applyBlockToAllDays\<close> in replace mode from an
  existing block with start \<open>s\<close>, span \<open>p\<close> and tasks \<open>T\<close> gives every one of the seven days
  a valid partition with exactly one block of start \<open>s\<close> and span \<open>p\<close>; its tasks are copies
  of \<open>T\<close> with the same texts and done flags, in the same order. The id of the copy of task
  \<open>k\<close> on day \<open>j\<close> is the token the random source gives at position
  \<open>n + j * length T + k\<close>: the copies of two days have different ids exactly when those
  tokens differ, which the code does not ensure. An \<^verbatim>\<open>updateTask\<close> on one day leaves every
  other day of the schedule as it is.
\<close>

theorem replace_copies:
  assumes "week_valid prev" "0 \<le> sel" "sel < 7" "prev (day_key sel) = Some src"
    and "0 \<le> blockIndex" "blockIndex < int (length src)"
  shows "\<exists>nxt. applyBlockToAllDays rnd n prev sel blockIndex ''replace''
               = Inr (nxt, n + 7 * length (tasks (src ! nat blockIndex))) \<and>
     (\<forall>j < 7. \<exists>slots'. nxt (DAYS ! j) = Some slots' \<and> valid_partition slots' \<and>
        filter (\<lambda>b. start b = start (src ! nat blockIndex) \<and> span b = span (src ! nat blockIndex)) slots'
          = [\<lparr>start = start (src ! nat blockIndex), span = span (src ! nat blockIndex),
              tasks = fst (makeCopies rnd (n + j * length (tasks (src ! nat blockIndex)))
                             (tasks (src ! nat blockIndex)))\<rparr>] \<and>
        map task_text (fst (makeCopies rnd (n + j * length (tasks (src ! nat blockIndex)))
                             (tasks (src ! nat blockIndex))))
          = map task_text (tasks (src ! nat blockIndex)) \<and>
        map task_done (fst (makeCopies rnd (n + j * length (tasks (src ! nat blockIndex)))
                             (tasks (src ! nat blockIndex))))
          = map task_done (tasks (src ! nat blockIndex)) \<and>
        (\<forall>k < length (tasks (src ! nat blockIndex)).
           task_id (fst (makeCopies rnd (n + j * length (tasks (src ! nat blockIndex)))
                             (tasks (src ! nat blockIndex))) ! k)
             = rnd (n + j * length (tasks (src ! nat blockIndex)) + k))) \<and>
     (\<forall>sel' i tid p nxt2.
        setDaySlots nxt sel' (\<lambda>slots. updateTask slots i tid p) = Inr nxt2 \<longrightarrow>
        (\<forall>d. d \<noteq> day_key sel' \<longrightarrow> nxt2 d = nxt d))"
proof -
  let ?b = "src ! nat blockIndex"
  let ?T = "tasks ?b"
  have src: "valid_partition src"
    using week_valid_day[OF assms(1) day_key_in_DAYS[OF assms(2,3)]] assms(4) by simp
  have k: "nat blockIndex < length src" using assms(5,6) by simp
  from valid_block_range[OF src k]
  have rg: "0 \<le> start ?b" "1 \<le> span ?b" "start ?b + span ?b \<le> 1440" by simp_all
  have pres: "\<forall>d \<in> set DAYS. prev d \<noteq> None"
    using week_valid_day[OF assms(1)] by fastforce
  from apply_days_replace[OF distinct_DAYS pres, of rnd prev "start ?b" "span ?b" ?T n]
  obtain nxt where
    r: "apply_days rnd DAYS prev prev (start ?b) (span ?b) ?T ''replace'' n
          = Inr (nxt, n + length DAYS * length ?T)"
    and s: "\<forall>j < length DAYS. \<exists>slots. prev (DAYS ! j) = Some slots \<and>
         nxt (DAYS ! j) =
           Some (replaceRangeWithSingleBlock slots (start ?b) (span ?b)
                   (fst (makeCopies rnd (n + j * length ?T) ?T)))"
    by blast
  have 1: "applyBlockToAllDays rnd n prev sel blockIndex ''replace'' = Inr (nxt, n + 7 * length ?T)"
    using r assms(4,5,6) by (simp add: applyBlockToAllDays_def Let_def length_DAYS)
  have 2: "\<forall>j < 7. \<exists>slots'. nxt (DAYS ! j) = Some slots' \<and> valid_partition slots' \<and>
        filter (\<lambda>b. start b = start ?b \<and> span b = span ?b) slots'
          = [\<lparr>start = start ?b, span = span ?b,
              tasks = fst (makeCopies rnd (n + j * length ?T) ?T)\<rparr>] \<and>
        map task_text (fst (makeCopies rnd (n + j * length ?T) ?T)) = map task_text ?T \<and>
        map task_done (fst (makeCopies rnd (n + j * length ?T) ?T)) = map task_done ?T \<and>
        (\<forall>k < length ?T.
           task_id (fst (makeCopies rnd (n + j * length ?T) ?T) ! k) = rnd (n + j * length ?T + k))"
  proof (intro allI impI)
    fix j :: nat assume j: "j < 7"
    then have jd: "DAYS ! j \<in> set DAYS" by (simp add: length_DAYS)
    from s j obtain slots where
      p: "prev (DAYS ! j) = Some slots"
      and q: "nxt (DAYS ! j) =
           Some (replaceRangeWithSingleBlock slots (start ?b) (span ?b)
                   (fst (makeCopies rnd (n + j * length ?T) ?T)))"
      by (auto simp: length_DAYS)
    from week_valid_day[OF assms(1) jd] p have v: "valid_partition slots" by simp
    let ?c = "fst (makeCopies rnd (n + j * length ?T) ?T)"
    have a: "valid_partition (replaceRangeWithSingleBlock slots (start ?b) (span ?b) ?c)"
      by (rule splice_valid[OF v rg])
    have b: "filter (\<lambda>b. start b = start ?b \<and> span b = span ?b)
               (replaceRangeWithSingleBlock slots (start ?b) (span ?b) ?c)
             = [\<lparr>start = start ?b, span = span ?b, tasks = ?c\<rparr>]"
      by (rule splice_filter[OF v rg])
    have c: "\<forall>k < length ?T. task_id (?c ! k) = rnd (n + j * length ?T + k)"
      by (simp add: makeCopies_nth)
    show "\<exists>slots'. nxt (DAYS ! j) = Some slots' \<and> valid_partition slots' \<and>
        filter (\<lambda>b. start b = start ?b \<and> span b = span ?b) slots'
          = [\<lparr>start = start ?b, span = span ?b, tasks = ?c\<rparr>] \<and>
        map task_text ?c = map task_text ?T \<and>
        map task_done ?c = map task_done ?T \<and>
        (\<forall>k < length ?T. task_id (?c ! k) = rnd (n + j * length ?T + k))"
      using q a b c makeCopies_text[of rnd "n + j * length ?T" ?T]
        makeCopies_done[of rnd "n + j * length ?T" ?T] by blast
  qed
  have 3: "\<forall>sel' i tid p nxt2.
        setDaySlots nxt sel' (\<lambda>slots. updateTask slots i tid p) = Inr nxt2 \<longrightarrow>
        (\<forall>d. d \<noteq> day_key sel' \<longrightarrow> nxt2 d = nxt d)"
    using setDaySlots_other by blast
  from 1 2 3 show ?thesis by blast
qed

theorem replace_copies_witness:
  "week_valid week_example \<and> (0::int) \<le> 1 \<and> (1::int) < 7 \<and>
   week_example (day_key 1) = Some (planned_day [task_gym]) \<and>
   (0::int) \<le> 2 \<and> 2 < int (length (planned_day [task_gym])) \<and>
   (\<exists>nxt. applyBlockToAllDays same_token 0 week_example 1 2 ''replace'' = Inr (nxt, 7))"
proof -
  have h: "(0::int) \<le> 1" "(1::int) < 7" "week_example (day_key 1) = Some (planned_day [task_gym])"
    "(0::int) \<le> 2" "2 < int (length (planned_day [task_gym]))"
    by (simp_all add: week_example_def day_key_def DAYS_def planned_day_def length_defaultDay)
  have t: "tasks (planned_day [task_gym] ! nat 2) = [task_gym]"
    by (simp add: planned_day_def eval_nat_numeral)
  from replace_copies[OF valid_week_example h, of same_token 0]
  obtain nxt where "applyBlockToAllDays same_token 0 week_example 1 2 ''replace''
               = Inr (nxt, 0 + 7 * length (tasks (planned_day [task_gym] ! nat 2)))"
    by blast
  then have "\<exists>nxt. applyBlockToAllDays same_token 0 week_example 1 2 ''replace'' = Inr (nxt, 7)"
    unfolding t by simp
  with valid_week_example h show ?thesis by blast
qed

text \<open>
  Claim C6 as it is written fails: with a random source that gives the token \<^verbatim>\<open>i\<close> twice
  (\<^verbatim>\<open>Math.random()\<close> returning 0.5), Monday's copy and Tuesday's copy of \<^verbatim>\<open>gym\<close> carry the
  same id.
\<close>

theorem replace_ids_collide:
  "result_day (applyBlockToAllDays same_token 0 week_example 1 2 ''replace'') ''Monday''
     = Some (planned_day [task_gym\<lparr>task_id := ''i''\<rparr>]) \<and>
   result_day (applyBlockToAllDays same_token 0 week_example 1 2 ''replace'') ''Tuesday''
     = Some (planned_day [task_gym\<lparr>task_id := ''i''\<rparr>])"
  using replace_week_example[of same_token 0] by (simp add: same_token_def)

section \<open>The partition invariant\<close>

text \<open>
  Claim C1. Start from the default schedule, in which every day is the default day of 24
  one-hour blocks, and run any sequence of operations: merging, splitting, a splice of a range
  with \<open>0 \<le> st\<close>, \<open>1 \<le> sp\<close> and \<open>st + sp \<le> 1440\<close>, applying a block to all days in any mode,
  adding, updating and removing a task, resetting a day, a custom range from any text,
  selecting a day. If no operation throws, every one of the seven days is sorted by start,
  contiguous, covers the minutes from 0 to 1440 and has spans of at least 1. By
  \<open>step_no_throw\<close> an operation throws only on a negative merge index or a task index that
  is not a block of the selected day.
\<close>

theorem partition_invariant:
  assumes "list_all op_ok ops"
    and "run_ops rnd \<lparr>schedule = defaultSchedule, selectedDay = d0, drawn = n0\<rparr> ops = Inr e'"
  shows "\<forall>d \<in> set DAYS. \<exists>slots. schedule e' d = Some slots \<and>
           sorted_by_start slots \<and> contiguous slots \<and> covers_day slots \<and> spans_positive slots"
proof -
  have "all_valid (schedule \<lparr>schedule = defaultSchedule, selectedDay = d0, drawn = n0\<rparr>)"
    using all_valid_default by simp
  from run_ops_valid[OF this assms] have "all_valid (schedule e')" .
  then show ?thesis by (fastforce simp: all_valid_def valid_partition_def)
qed

theorem partition_invariant_witness:
  "list_all op_ok example_ops \<and>
   (\<exists>e'. run_ops same_token \<lparr>schedule = defaultSchedule, selectedDay = 0, drawn = 0\<rparr> example_ops = Inr e' \<and>
         week_valid (schedule e'))"
proof -
  have h1: "list_all op_ok example_ops" by (simp add: example_ops_def)
  have "\<not> isl (run_ops same_token example_start example_ops)" by code_simp
  then obtain e' where
    h2: "run_ops same_token \<lparr>schedule = defaultSchedule, selectedDay = 0, drawn = 0\<rparr> example_ops = Inr e'"
    unfolding example_start_def by (cases "run_ops same_token \<lparr>schedule = defaultSchedule, selectedDay = 0, drawn = 0\<rparr> example_ops") auto
  from partition_invariant[OF h1 h2]
  have "\<forall>d \<in> set DAYS. \<exists>slots. schedule e' d = Some slots \<and> valid_partition slots"
    by (simp add: valid_partition_def)
  then have "week_valid (schedule e')" by (intro week_validI) blast
  with h1 h2 show ?thesis by blast
qed

section \<open>Rejected custom ranges\<close>

text \<open>
  Claim C9. For every text given to the custom range: when it has two sides and the parser
  gives \<^verbatim>\<open>NaN\<close> on one of them, or gives an end that is not after the start, the outcome is an
  alert, the blocks of the day stay as they are and the state of the planner is unchanged.
  A splice is performed only when both sides parse and the end is after the start, and then
  it is the splice of exactly the parsed range with no tasks. A text with no separator has
  no two sides to parse: no splice is performed and the state is unchanged as well.
\<close>

theorem custom_range_rejects:
  "(2 \<le> length (split_range [] r) \<and>
      (parseTimeToMinutes (split_range [] r ! 0) = None \<or>
       parseTimeToMinutes (split_range [] r ! 1) = None \<or>
       (\<exists>startMin endMin. parseTimeToMinutes (split_range [] r ! 0) = Some startMin \<and>
            parseTimeToMinutes (split_range [] r ! 1) = Some endMin \<and> endMin \<le> startMin)) \<longrightarrow>
      (\<exists>msg. customRange (Some r) = Alert msg) \<and> addCustomBlock (Some r) slots = slots \<and>
      step rnd e (AddCustomBlock (Some r)) = Inr e) \<and>
   (customRange raw = Splice s sp \<longrightarrow>
      (\<exists>r'. raw = Some r' \<and> 2 \<le> length (split_range [] r') \<and>
         parseTimeToMinutes (split_range [] r' ! 0) = Some s \<and>
         parseTimeToMinutes (split_range [] r' ! 1) = Some (s + sp) \<and> s < s + sp)) \<and>
   (2 \<le> length (split_range [] r) \<and>
      parseTimeToMinutes (split_range [] r ! 0) = Some s0 \<and>
      parseTimeToMinutes (split_range [] r ! 1) = Some e0 \<and> s0 < e0 \<longrightarrow>
      customRange (Some r) = Splice s0 (e0 - s0) \<and>
      addCustomBlock (Some r) slots = replaceRangeWithSingleBlock slots s0 (e0 - s0) []) \<and>
   (length (split_range [] r) < 2 \<longrightarrow>
      (customRange (Some r) = NoInput \<or> (\<exists>msg. customRange (Some r) = Alert msg)) \<and>
      addCustomBlock (Some r) slots = slots \<and>
      step rnd e (AddCustomBlock (Some r)) = Inr e)"
proof (intro conjI impI)
  assume h: "2 \<le> length (split_range [] r) \<and>
      (parseTimeToMinutes (split_range [] r ! 0) = None \<or>
       parseTimeToMinutes (split_range [] r ! 1) = None \<or>
       (\<exists>startMin endMin. parseTimeToMinutes (split_range [] r ! 0) = Some startMin \<and>
            parseTimeToMinutes (split_range [] r ! 1) = Some endMin \<and> endMin \<le> startMin))"
  then have ne: "r \<noteq> []" by auto
  from h customRange_two_parts[OF ne] have a: "\<exists>msg. customRange (Some r) = Alert msg"
    by (auto split: option.splits)
  then show "\<exists>msg. customRange (Some r) = Alert msg" .
  from a show "addCustomBlock (Some r) slots = slots" by (auto simp: addCustomBlock_def)
  from a show "step rnd e (AddCustomBlock (Some r)) = Inr e" by auto
next
  assume "customRange raw = Splice s sp"
  from customRange_Splice[OF this] obtain r' startMin endMin where
    c: "raw = Some r'" "2 \<le> length (split_range [] r')"
      "parseTimeToMinutes (split_range [] r' ! 0) = Some startMin"
      "parseTimeToMinutes (split_range [] r' ! 1) = Some endMin" "startMin < endMin"
      "s = max 0 (min 1439 startMin)" "sp = max 1 (min 1440 endMin) - max 0 (min 1439 startMin)"
    by blast
  from parse_range[OF c(3)] parse_range[OF c(4)] c(5,6,7)
  have "s = startMin" "s + sp = endMin" by simp_all
  with c show "\<exists>r'. raw = Some r' \<and> 2 \<le> length (split_range [] r') \<and>
         parseTimeToMinutes (split_range [] r' ! 0) = Some s \<and>
         parseTimeToMinutes (split_range [] r' ! 1) = Some (s + sp) \<and> s < s + sp"
    by auto
next
  assume h: "2 \<le> length (split_range [] r) \<and>
      parseTimeToMinutes (split_range [] r ! 0) = Some s0 \<and>
      parseTimeToMinutes (split_range [] r ! 1) = Some e0 \<and> s0 < e0"
  then have ne: "r \<noteq> []" by auto
  from h parse_range[of "split_range [] r ! 0" s0] parse_range[of "split_range [] r ! 1" e0]
  have cl: "max 0 (min 1439 s0) = s0" "max 1 (min 1440 e0) = e0" by simp_all
  from h customRange_two_parts[OF ne] cl
  show c: "customRange (Some r) = Splice s0 (e0 - s0)" by simp
  then show "addCustomBlock (Some r) slots = replaceRangeWithSingleBlock slots s0 (e0 - s0) []"
    by (simp add: addCustomBlock_def)
next
  assume h: "length (split_range [] r) < 2"
  then show a: "customRange (Some r) = NoInput \<or> (\<exists>msg. customRange (Some r) = Alert msg)"
    by (simp add: customRange_def Let_def)
  from a show "addCustomBlock (Some r) slots = slots" by (auto simp: addCustomBlock_def)
  from a show "step rnd e (AddCustomBlock (Some r)) = Inr e" by auto
qed

theorem custom_range_rejects_witness:
  "(2 \<le> length (split_range [] ''abc - 10'') \<and>
    parseTimeToMinutes (split_range [] ''abc - 10'' ! 0) = None \<and>
    addCustomBlock (Some ''abc - 10'') defaultDay = defaultDay) \<and>
   (2 \<le> length (split_range [] ''10 - 9:30'') \<and>
    parseTimeToMinutes (split_range [] ''10 - 9:30'' ! 0) = Some 600 \<and>
    parseTimeToMinutes (split_range [] ''10 - 9:30'' ! 1) = Some 570 \<and>
    addCustomBlock (Some ''10 - 9:30'') defaultDay = defaultDay) \<and>
   (customRange (Some ''9:30 - 10'') = Splice 570 30 \<and>
    (\<exists>r'. Some ''9:30 - 10'' = Some r' \<and> 2 \<le> length (split_range [] r') \<and>
         parseTimeToMinutes (split_range [] r' ! 0) = Some 570 \<and>
         parseTimeToMinutes (split_range [] r' ! 1) = Some (570 + 30) \<and> (570::int) < 570 + 30)) \<and>
   (2 \<le> length (split_range [] ''1:05pm to 2:20pm'') \<and>
    parseTimeToMinutes (split_range [] ''1:05pm to 2:20pm'' ! 0) = Some 785 \<and>
    parseTimeToMinutes (split_range [] ''1:05pm to 2:20pm'' ! 1) = Some 860 \<and>
    addCustomBlock (Some ''1:05pm to 2:20pm'') defaultDay =
      replaceRangeWithSingleBlock defaultDay 785 (860 - 785) []) \<and>
   (length (split_range [] ''hello'') < 2 \<and>
    addCustomBlock (Some ''hello'') defaultDay = defaultDay)"
proof -
  have a1: "2 \<le> length (split_range [] ''abc - 10'')" by code_simp
  have a2: "parseTimeToMinutes (split_range [] ''abc - 10'' ! 0) = None" by code_simp
  note ta = custom_range_rejects[of "''abc - 10''" defaultDay, THEN conjunct1, THEN mp]
  have a': "addCustomBlock (Some ''abc - 10'') defaultDay = defaultDay"
    using ta[OF conjI[OF a1 disjI1[OF a2]]] by (rule conjunct2[THEN conjunct1])
  have b1: "2 \<le> length (split_range [] ''10 - 9:30'')" by code_simp
  have b2: "parseTimeToMinutes (split_range [] ''10 - 9:30'' ! 0) = Some 600" by code_simp
  have b3: "parseTimeToMinutes (split_range [] ''10 - 9:30'' ! 1) = Some 570" by code_simp
  have b4: "\<exists>startMin endMin. parseTimeToMinutes (split_range [] ''10 - 9:30'' ! 0) = Some startMin \<and>
            parseTimeToMinutes (split_range [] ''10 - 9:30'' ! 1) = Some endMin \<and> endMin \<le> startMin"
    by (rule exI[of _ 600], rule exI[of _ 570]) (simp only: b2 b3, simp)
  note tb = custom_range_rejects[of "''10 - 9:30''" defaultDay, THEN conjunct1, THEN mp]
  have b': "addCustomBlock (Some ''10 - 9:30'') defaultDay = defaultDay"
    using tb[OF conjI[OF b1 disjI2[OF disjI2[OF b4]]]] by (rule conjunct2[THEN conjunct1])
  have c: "customRange (Some ''9:30 - 10'') = Splice 570 30" by code_simp
  note tc = custom_range_rejects[of _ _ _ _ "Some ''9:30 - 10''" 570 30, THEN conjunct2,
      THEN conjunct1, THEN mp]
  note c' = tc[OF c]
  have d1: "2 \<le> length (split_range [] ''1:05pm to 2:20pm'')" by code_simp
  have d2: "parseTimeToMinutes (split_range [] ''1:05pm to 2:20pm'' ! 0) = Some 785" by code_simp
  have d3: "parseTimeToMinutes (split_range [] ''1:05pm to 2:20pm'' ! 1) = Some 860" by code_simp
  have d4: "(785::int) < 860" by simp
  note td = custom_range_rejects[of "''1:05pm to 2:20pm''" defaultDay _ _ _ _ _ 785 860,
      THEN conjunct2, THEN conjunct2, THEN conjunct1, THEN mp]
  have d': "addCustomBlock (Some ''1:05pm to 2:20pm'') defaultDay =
      replaceRangeWithSingleBlock defaultDay 785 (860 - 785) []"
    using td[OF conjI[OF d1 conjI[OF d2 conjI[OF d3 d4]]]] by (rule conjunct2)
  have e1: "length (split_range [] ''hello'') < 2" by code_simp
  note te = custom_range_rejects[of "''hello''" defaultDay, THEN conjunct2, THEN conjunct2,
      THEN conjunct2, THEN mp]
  have e': "addCustomBlock (Some ''hello'') defaultDay = defaultDay"
    using te[OF e1] by (rule conjunct2[THEN conjunct1])
  show ?thesis
    by (intro conjI) (rule a1 a2 a' b1 b2 b3 b' c c' d1 d2 d3 d' e1 e')+
qed

section \<open>Loading a stored snapshot\<close>

text \<open>
  Claim C5 says that the loader falls back to the default schedule when the stored value is
  missing or is not JSON. The initializer does so when the value is missing or the empty
  text, and the default schedule maps each of the seven days to the 24 blocks of 60
  minutes. For a stored text that is not JSON, such as \<^verbatim>\<open>corrupted\<close>, it calls \<^verbatim>\<open>JSON.parse\<close>
  outside any \<^verbatim>\<open>try\<close>, and the \<^verbatim>\<open>SyntaxError\<close> is the outcome of the initializer.
\<close>

theorem load_corrupted_throws:
  "schedule_init decode None = Inr defaultSchedule \<and>
   schedule_init decode (Some []) = Inr defaultSchedule \<and>
   map defaultSchedule DAYS = replicate 7 (Some defaultDay) \<and>
   defaultDay = map (\<lambda>h. \<lparr>start = 60 * int h, span = 60, tasks = []\<rparr>) [0..<24] \<and>
   json_rejects ''corrupted'' \<and>
   schedule_init decode (Some ''corrupted'') = Inl SyntaxError"
proof -
  have 1: "schedule_init decode None = Inr defaultSchedule"
    and 2: "schedule_init decode (Some []) = Inr defaultSchedule"
    by (simp_all add: schedule_init_def)
  have 3: "map defaultSchedule DAYS = replicate 7 (Some defaultDay)"
    by (simp add: defaultSchedule_def DAYS_def eval_nat_numeral)
  have 4: "defaultDay = map (\<lambda>h. \<lparr>start = 60 * int h, span = 60, tasks = []\<rparr>) [0..<24]"
    by (simp add: defaultDay_def mult.commute)
  have 5: "json_rejects ''corrupted''"
    by (simp add: json_rejects_def)
  then have 6: "schedule_init decode (Some ''corrupted'') = Inl SyntaxError"
    by (simp add: schedule_init_def JSON_parse_def)
  from 1 2 3 4 5 6 show ?thesis by blast
qed


end
